theory Spec2Isabelle
  imports Main "HOL-Library.Word"
begin

unbundle bit_operations_syntax

section \<open>Data model of obstack.c\<close>

text \<open>
  The embedding follows the GNU C branch of the macros and the interface version 2 of the
  file, on an LP64 host: \<open>size_t\<close>, \<open>_OBSTACK_SIZE_T\<close>, \<open>_CHUNK_SIZE_T\<close> and every pointer
  are 64-bit words, pointer comparison is unsigned comparison and pointer arithmetic wraps.
  The null pointer is \<open>0\<close>. A C name with a leading underscore is written with the prefix
  \<open>U_\<close> (\<open>_obstack_free\<close> is \<open>U_obstack_free\<close>).
\<close>

type_synonym addr = "64 word"
type_synonym size_t = "64 word"
type_synonym byte = "8 word"

text \<open>\<open>struct _obstack_chunk\<close>: the header at the front of each chunk.\<close>

record obstack_chunk =
  limit :: addr
  prev :: addr

text \<open>
  \<open>struct obstack\<close>, the control block. The function pointers \<open>chunkfun\<close>, \<open>freefun\<close>,
  \<open>extra_arg\<close> belong to the environment (see \<open>world\<close>); \<open>temp\<close> is not used by the GNU C
  macros.
\<close>

record obstack =
  chunk_size :: size_t
  chunk :: addr
  object_base :: addr
  next_free :: addr
  chunk_limit :: addr
  alignment_mask :: size_t
  use_extra_arg :: bool
  maybe_empty_object :: bool
  alloc_failed :: bool

text \<open>
  The memory and the backing allocator, as far as the obstack code sees them:
  \<open>chunks\<close> holds the header of every chunk that has been obtained from the allocator and
  not given back, \<open>mem\<close> the bytes, \<open>requested\<close> the sizes passed to the chunk allocation
  function so far and \<open>released\<close> the chunks passed to the chunk free function so far
  (both oldest first).
\<close>

record world =
  chunks :: "addr \<rightharpoonup> obstack_chunk"
  mem :: "addr \<Rightarrow> byte"
  requested :: "size_t list"
  released :: "addr list"

text \<open>
  The ways an operation does not return: \<open>obstack_alloc_failed_handler\<close> is called (it does
  not return), \<open>abort ()\<close> is called, or the code reads memory it does not own. The first two
  carry the control block and the memory at the moment of the call.
\<close>

datatype failure =
    Alloc_failed obstack world
  | Aborted obstack world
  | Invalid_access

type_synonym state = "obstack \<times> world"

section \<open>Alignment and queries\<close>

text \<open>\<open>#define __BPTR_ALIGN(B, P, A) ((B) + (((P) - (B) + (A)) & ~(A)))\<close>\<close>

definition BPTR_ALIGN :: "addr \<Rightarrow> addr \<Rightarrow> size_t \<Rightarrow> addr" where
  "BPTR_ALIGN B P A = B + ((P - B + A) AND NOT A)"

text \<open>
  \<open>__PTR_ALIGN\<close>: \<open>sizeof (ptrdiff_t) < sizeof (void *)\<close> is false on LP64, so the base
  is \<open>(char *) 0\<close>.
\<close>

definition PTR_ALIGN :: "addr \<Rightarrow> addr \<Rightarrow> size_t \<Rightarrow> addr" where
  "PTR_ALIGN B P A = BPTR_ALIGN 0 P A"

text \<open>\<open>chunk->contents\<close>: the member follows two 8-byte pointers.\<close>

definition contents :: "addr \<Rightarrow> addr" where
  "contents c = c + 16"

definition obstack_base :: "obstack \<Rightarrow> addr" where
  "obstack_base h = object_base h"

definition obstack_next_free :: "obstack \<Rightarrow> addr" where
  "obstack_next_free h = next_free h"

definition obstack_object_size :: "obstack \<Rightarrow> size_t" where
  "obstack_object_size h = next_free h - object_base h"

definition obstack_room :: "obstack \<Rightarrow> size_t" where
  "obstack_room h = chunk_limit h - next_free h"

section \<open>The backing allocator\<close>

text \<open>
  \<open>call_chunkfun\<close>: the allocation function is supplied by the caller of the library, so its
  answer \<open>r\<close> (a chunk address, or 0) is a parameter of every operation that may call it.
  The call is recorded.
\<close>

definition call_chunkfun :: "addr \<Rightarrow> world \<Rightarrow> size_t \<Rightarrow> addr \<times> world" where
  "call_chunkfun r w n = (r, w\<lparr>requested := requested w @ [n]\<rparr>)"

text \<open>\<open>call_freefun\<close>: the chunk goes back to the allocator and the call is recorded.\<close>

definition call_freefun :: "world \<Rightarrow> addr \<Rightarrow> world" where
  "call_freefun w old_chunk =
     w\<lparr>chunks := (chunks w)(old_chunk := None), released := released w @ [old_chunk]\<rparr>"

text \<open>\<open>memcpy (dst, src, n)\<close> between two places of the memory.\<close>

definition memcpy :: "addr \<Rightarrow> addr \<Rightarrow> size_t \<Rightarrow> (addr \<Rightarrow> byte) \<Rightarrow> (addr \<Rightarrow> byte)" where
  "memcpy dst src n m = (\<lambda>a. if a - dst < n then m (src + (a - dst)) else m a)"

text \<open>Storing the bytes \<open>bs\<close> at \<open>dst\<close>, \<open>dst + 1\<close>, ...\<close>

definition store :: "addr \<Rightarrow> byte list \<Rightarrow> (addr \<Rightarrow> byte) \<Rightarrow> (addr \<Rightarrow> byte)" where
  "store dst bs m = (\<lambda>a. if unat (a - dst) < length bs then bs ! unat (a - dst) else m a)"

section \<open>Initialization\<close>

text \<open>
  \<open>DEFAULT_ALIGNMENT\<close> and \<open>DEFAULT_ROUNDING\<close> on x86-64: \<open>long double\<close> has alignment and
  size 16.
\<close>

definition DEFAULT_ALIGNMENT :: size_t where
  "DEFAULT_ALIGNMENT = 16"

definition DEFAULT_ROUNDING :: size_t where
  "DEFAULT_ROUNDING = 16"

definition U_obstack_begin_worker :: "addr \<Rightarrow> state \<Rightarrow> size_t \<Rightarrow> size_t \<Rightarrow> failure + state" where
  "U_obstack_begin_worker r s size0 alignment0 =
     (let (h, w) = s;
          alignment = (if alignment0 = 0 then DEFAULT_ALIGNMENT else alignment0);
          extra = ((((12 + DEFAULT_ROUNDING - 1) AND NOT (DEFAULT_ROUNDING - 1))
                    + 4 + DEFAULT_ROUNDING - 1) AND NOT (DEFAULT_ROUNDING - 1));
          size1 = (if size0 = 0 then 4096 - extra else size0);
          h1 = h\<lparr>chunk_size := size1, alignment_mask := alignment - 1\<rparr>;
          (chunk', w1) = call_chunkfun r w (chunk_size h1)
      in if chunk' = 0 then Inl (Alloc_failed h1 w1)
         else
           let ob = PTR_ALIGN chunk' (contents chunk') (alignment - 1);
               lim = chunk' + chunk_size h1
           in Inr (h1\<lparr>chunk := chunk', next_free := ob, object_base := ob, chunk_limit := lim,
                       maybe_empty_object := False, alloc_failed := False\<rparr>,
                   w1\<lparr>chunks := (chunks w1)(chunk' \<mapsto> \<lparr>limit = lim, prev = 0\<rparr>)\<rparr>))"

definition U_obstack_begin :: "addr \<Rightarrow> state \<Rightarrow> size_t \<Rightarrow> size_t \<Rightarrow> failure + state" where
  "U_obstack_begin r s size0 alignment0 =
     (let (h, w) = s in U_obstack_begin_worker r (h\<lparr>use_extra_arg := False\<rparr>, w) size0 alignment0)"

definition U_obstack_begin_1 :: "addr \<Rightarrow> state \<Rightarrow> size_t \<Rightarrow> size_t \<Rightarrow> failure + state" where
  "U_obstack_begin_1 r s size0 alignment0 =
     (let (h, w) = s in U_obstack_begin_worker r (h\<lparr>use_extra_arg := True\<rparr>, w) size0 alignment0)"

section \<open>Chunk migration\<close>

text \<open>
  The size computation of \<open>_obstack_newchunk\<close> (\<open>sum1\<close>, \<open>sum2\<close>, \<open>new_size\<close>) and the
  test \<open>obj_size <= sum1 && sum1 <= sum2\<close> that guards the call of the allocator.
\<close>

definition newchunk_sum1 :: "obstack \<Rightarrow> size_t \<Rightarrow> size_t" where
  "newchunk_sum1 h length0 = (next_free h - object_base h) + length0"

definition newchunk_sum2 :: "obstack \<Rightarrow> size_t \<Rightarrow> size_t" where
  "newchunk_sum2 h length0 = newchunk_sum1 h length0 + alignment_mask h"

definition newchunk_size :: "obstack \<Rightarrow> size_t \<Rightarrow> size_t" where
  "newchunk_size h length0 =
     (let obj_size = next_free h - object_base h;
          sum2 = newchunk_sum2 h length0;
          new_size0 = sum2 + (drop_bit 3 obj_size) + 100;
          new_size1 = (if new_size0 < sum2 then sum2 else new_size0)
      in if new_size1 < chunk_size h then chunk_size h else new_size1)"

definition newchunk_sums_ok :: "obstack \<Rightarrow> size_t \<Rightarrow> bool" where
  "newchunk_sums_ok h length0 =
     (next_free h - object_base h \<le> newchunk_sum1 h length0
      \<and> newchunk_sum1 h length0 \<le> newchunk_sum2 h length0)"

text \<open>
  \<open>_obstack_newchunk\<close>. Reading \<open>old_chunk->prev\<close> needs the header of the old chunk.
\<close>

definition U_obstack_newchunk :: "addr \<Rightarrow> state \<Rightarrow> size_t \<Rightarrow> failure + state" where
  "U_obstack_newchunk r s length0 =
     (let (h, w) = s;
          old_chunk = chunk h;
          obj_size = next_free h - object_base h;
          new_size = newchunk_size h length0;
          (new_chunk, w1) =
             (if newchunk_sums_ok h length0 then call_chunkfun r w new_size else (0, w))
      in if new_chunk = 0 then Inl (Alloc_failed h w1)
         else
           let h1 = h\<lparr>chunk := new_chunk, chunk_limit := new_chunk + new_size\<rparr>;
               w2 = w1\<lparr>chunks := (chunks w1)
                        (new_chunk \<mapsto> \<lparr>limit = new_chunk + new_size, prev = old_chunk\<rparr>)\<rparr>;
               ob = PTR_ALIGN new_chunk (contents new_chunk) (alignment_mask h1);
               w3 = w2\<lparr>mem := memcpy ob (object_base h1) obj_size (mem w2)\<rparr>
           in if \<not> maybe_empty_object h1
                 \<and> object_base h1 = PTR_ALIGN old_chunk (contents old_chunk) (alignment_mask h1)
              then (case chunks w3 old_chunk of
                      None \<Rightarrow> Inl Invalid_access
                    | Some oc \<Rightarrow>
                        Inr (h1\<lparr>object_base := ob, next_free := ob + obj_size,
                                 maybe_empty_object := False\<rparr>,
                             call_freefun
                               (w3\<lparr>chunks := (chunks w3)
                                    (new_chunk \<mapsto> \<lparr>limit = new_chunk + new_size, prev = prev oc\<rparr>)\<rparr>)
                               old_chunk))
              else Inr (h1\<lparr>object_base := ob, next_free := ob + obj_size,
                            maybe_empty_object := False\<rparr>, w3))"

section \<open>Growth\<close>

text \<open>
  The source buffer \<open>where\<close> of \<open>obstack_grow\<close> is given by the bytes that can be read from it;
  copying more than that reads memory the caller does not own.
\<close>

definition obstack_make_room :: "addr \<Rightarrow> state \<Rightarrow> size_t \<Rightarrow> failure + state" where
  "obstack_make_room r s len =
     (if obstack_room (fst s) < len then U_obstack_newchunk r s len else Inr s)"

definition obstack_blank_fast :: "state \<Rightarrow> size_t \<Rightarrow> state" where
  "obstack_blank_fast s n = (let (h, w) = s in (h\<lparr>next_free := next_free h + n\<rparr>, w))"

definition obstack_1grow_fast :: "state \<Rightarrow> byte \<Rightarrow> state" where
  "obstack_1grow_fast s achar =
     (let (h, w) = s
      in (h\<lparr>next_free := next_free h + 1\<rparr>, w\<lparr>mem := (mem w)(next_free h := achar)\<rparr>))"

definition obstack_grow :: "addr \<Rightarrow> state \<Rightarrow> byte list \<Rightarrow> size_t \<Rightarrow> failure + state" where
  "obstack_grow r s where0 len =
     (case obstack_make_room r s len of
        Inl e \<Rightarrow> Inl e
      | Inr (h, w) \<Rightarrow>
          if length where0 < unat len then Inl Invalid_access
          else Inr (h\<lparr>next_free := next_free h + len\<rparr>,
                    w\<lparr>mem := store (next_free h) (take (unat len) where0) (mem w)\<rparr>))"

definition obstack_grow0 :: "addr \<Rightarrow> state \<Rightarrow> byte list \<Rightarrow> size_t \<Rightarrow> failure + state" where
  "obstack_grow0 r s where0 len =
     (case obstack_make_room r s (len + 1) of
        Inl e \<Rightarrow> Inl e
      | Inr (h, w) \<Rightarrow>
          if length where0 < unat len then Inl Invalid_access
          else Inr (obstack_1grow_fast
                      (h\<lparr>next_free := next_free h + len\<rparr>,
                       w\<lparr>mem := store (next_free h) (take (unat len) where0) (mem w)\<rparr>) 0))"

definition obstack_1grow :: "addr \<Rightarrow> state \<Rightarrow> byte \<Rightarrow> failure + state" where
  "obstack_1grow r s datum =
     (case obstack_make_room r s 1 of
        Inl e \<Rightarrow> Inl e
      | Inr s1 \<Rightarrow> Inr (obstack_1grow_fast s1 datum))"

text \<open>
  \<open>obstack_ptr_grow\<close> and \<open>obstack_int_grow\<close> store the object representation of the datum:
  8 and 4 bytes, given here as the list \<open>rep\<close> of these bytes.
\<close>

definition obstack_ptr_grow_fast :: "state \<Rightarrow> byte list \<Rightarrow> state" where
  "obstack_ptr_grow_fast s rep =
     (let (h, w) = s
      in (h\<lparr>next_free := next_free h + 8\<rparr>, w\<lparr>mem := store (next_free h) (take 8 rep) (mem w)\<rparr>))"

definition obstack_int_grow_fast :: "state \<Rightarrow> byte list \<Rightarrow> state" where
  "obstack_int_grow_fast s rep =
     (let (h, w) = s
      in (h\<lparr>next_free := next_free h + 4\<rparr>, w\<lparr>mem := store (next_free h) (take 4 rep) (mem w)\<rparr>))"

definition obstack_ptr_grow :: "addr \<Rightarrow> state \<Rightarrow> byte list \<Rightarrow> failure + state" where
  "obstack_ptr_grow r s rep =
     (case obstack_make_room r s 8 of
        Inl e \<Rightarrow> Inl e
      | Inr s1 \<Rightarrow> Inr (obstack_ptr_grow_fast s1 rep))"

definition obstack_int_grow :: "addr \<Rightarrow> state \<Rightarrow> byte list \<Rightarrow> failure + state" where
  "obstack_int_grow r s rep =
     (case obstack_make_room r s 4 of
        Inl e \<Rightarrow> Inl e
      | Inr s1 \<Rightarrow> Inr (obstack_int_grow_fast s1 rep))"

definition obstack_blank :: "addr \<Rightarrow> state \<Rightarrow> size_t \<Rightarrow> failure + state" where
  "obstack_blank r s len =
     (case obstack_make_room r s len of
        Inl e \<Rightarrow> Inl e
      | Inr s1 \<Rightarrow> Inr (obstack_blank_fast s1 len))"

section \<open>Finalization\<close>

text \<open>\<open>obstack_finish\<close>; the first component is the address returned.\<close>

definition obstack_finish :: "state \<Rightarrow> addr \<times> state" where
  "obstack_finish s =
     (let (h, w) = s;
          value = object_base h;
          h1 = (if next_free h = value then h\<lparr>maybe_empty_object := True\<rparr> else h);
          h2 = h1\<lparr>next_free := PTR_ALIGN (object_base h1) (next_free h1) (alignment_mask h1)\<rparr>;
          h3 = (if next_free h2 - chunk h2 > chunk_limit h2 - chunk h2
                then h2\<lparr>next_free := chunk_limit h2\<rparr> else h2)
      in (value, (h3\<lparr>object_base := next_free h3\<rparr>, w)))"

definition obstack_alloc :: "addr \<Rightarrow> state \<Rightarrow> size_t \<Rightarrow> failure + addr \<times> state" where
  "obstack_alloc r s len =
     (case obstack_blank r s len of Inl e \<Rightarrow> Inl e | Inr s1 \<Rightarrow> Inr (obstack_finish s1))"

definition obstack_copy :: "addr \<Rightarrow> state \<Rightarrow> byte list \<Rightarrow> size_t \<Rightarrow> failure + addr \<times> state" where
  "obstack_copy r s where0 len =
     (case obstack_grow r s where0 len of Inl e \<Rightarrow> Inl e | Inr s1 \<Rightarrow> Inr (obstack_finish s1))"

definition obstack_copy0 :: "addr \<Rightarrow> state \<Rightarrow> byte list \<Rightarrow> size_t \<Rightarrow> failure + addr \<times> state" where
  "obstack_copy0 r s where0 len =
     (case obstack_grow0 r s where0 len of Inl e \<Rightarrow> Inl e | Inr s1 \<Rightarrow> Inr (obstack_finish s1))"

section \<open>Bulk free\<close>

text \<open>
  The test of the two chunk walks, \<open>(void *) lp >= obj || (void *) (lp)->limit < obj\<close>:
  the chunk at \<open>lp\<close> with header \<open>c\<close> does not hold \<open>obj\<close>.
\<close>

definition outside :: "addr \<Rightarrow> addr \<Rightarrow> obstack_chunk \<Rightarrow> bool" where
  "outside obj lp c = (lp \<ge> obj \<or> limit c < obj)"

text \<open>
  The loop of \<open>_obstack_free\<close>. Every round gives one chunk back to the allocator, so the
  number of chunks held decreases.
\<close>

function free_chunks :: "addr \<Rightarrow> addr \<Rightarrow> state \<Rightarrow> failure + addr \<times> state" where
  "free_chunks obj lp (h, w) =
     (if lp \<noteq> 0 then
        (case chunks w lp of
           None \<Rightarrow> Inl Invalid_access
         | Some c \<Rightarrow>
             if outside obj lp c
             then free_chunks obj (prev c) (h\<lparr>maybe_empty_object := True\<rparr>, call_freefun w lp)
             else Inr (lp, h, w))
      else Inr (lp, h, w))"
  by pat_completeness auto
termination
proof (relation "measure (\<lambda>(obj, lp, h, w). card (dom (chunks w)))")
  show "wf (measure (\<lambda>(obj, lp, h, w). card (dom (chunks w))))"
    by simp
next
  fix obj lp :: addr and h :: obstack and w :: world and c :: obstack_chunk
  assume "chunks w lp = Some c"
  then have "lp \<in> dom (chunks w)"
    by auto
  then have "card (dom (chunks w) - {lp}) < card (dom (chunks w))"
    by (intro card_Diff1_less) simp_all
  then show "((obj, prev c, h\<lparr>maybe_empty_object := True\<rparr>, call_freefun w lp), obj, lp, h, w)
             \<in> measure (\<lambda>(obj, lp, h, w). card (dom (chunks w)))"
    by (simp add: call_freefun_def)
qed

definition U_obstack_free :: "state \<Rightarrow> addr \<Rightarrow> failure + state" where
  "U_obstack_free s obj =
     (case free_chunks obj (chunk (fst s)) s of
        Inl e \<Rightarrow> Inl e
      | Inr (lp, h, w) \<Rightarrow>
          if lp \<noteq> 0 then
            (case chunks w lp of
               None \<Rightarrow> Inl Invalid_access
             | Some c \<Rightarrow>
                 Inr (h\<lparr>next_free := obj, object_base := obj, chunk_limit := limit c, chunk := lp\<rparr>, w))
          else if obj \<noteq> 0 then Inl (Aborted h w)
          else Inr (h, w))"

text \<open>The macro \<open>obstack_free\<close>.\<close>

definition obstack_free :: "state \<Rightarrow> addr \<Rightarrow> failure + state" where
  "obstack_free s obj =
     (let (h, w) = s
      in if obj > chunk h \<and> obj < chunk_limit h
         then Inr (h\<lparr>object_base := obj, next_free := obj\<rparr>, w)
         else U_obstack_free s obj)"

text \<open>
  The loop of \<open>_obstack_allocated_p\<close> gives nothing back, so on a chain of chunks that runs
  in a circle it does not end: the result \<open>None\<close>.
\<close>

partial_function (option) allocated_chunk :: "world \<Rightarrow> addr \<Rightarrow> addr \<Rightarrow> (failure + addr) option" where
  "allocated_chunk w obj lp =
     (if lp \<noteq> 0 then
        (if chunks w lp = None then Some (Inl Invalid_access)
         else if outside obj lp (the (chunks w lp))
              then allocated_chunk w obj (prev (the (chunks w lp)))
              else Some (Inr lp))
      else Some (Inr lp))"

definition U_obstack_allocated_p :: "state \<Rightarrow> addr \<Rightarrow> (failure + bool) option" where
  "U_obstack_allocated_p s obj =
     map_option (map_sum id (\<lambda>lp. lp \<noteq> 0)) (allocated_chunk (snd s) obj (chunk (fst s)))"

section \<open>Formatted append\<close>

text \<open>
  \<open>vsnprintf\<close> is the C library's (ISO C 7.21.6.12), not this file's: given the complete
  output \<open>out\<close> of the conversion, it leaves at most \<open>n - 1\<close> bytes of it and a null byte
  in the buffer and returns the length of the complete output, or a negative value when that
  length is not an \<open>int\<close>.
\<close>

definition vsnprintf :: "byte list \<Rightarrow> nat \<Rightarrow> byte list \<Rightarrow> byte list \<times> 32 word" where
  "vsnprintf buf n out =
     ((if n = 0 then buf
       else take (n - 1) out @ [0] @ drop (min (length out) (n - 1) + 1) buf),
      (if length out < 2 ^ 31 then of_nat (length out) else - 1))"

text \<open>
  \<open>obstack_printf\<close> and \<open>obstack_vprintf\<close> have the same body. \<open>buf0\<close> is what the array
  \<open>char buf[1024]\<close> holds before the call (1024 bytes), \<open>beyond\<close> the bytes of the frame
  that follow the array, which \<open>memcpy\<close> reads when it is asked for more than 1024 bytes.
  The \<open>int len\<close> is converted to \<open>_OBSTACK_SIZE_T\<close> with its sign. The first component of
  the result is the value returned.
\<close>

definition obstack_vprintf ::
    "addr \<Rightarrow> state \<Rightarrow> byte list \<Rightarrow> byte list \<Rightarrow> byte list \<Rightarrow> failure + int \<times> state" where
  "obstack_vprintf r s buf0 beyond out =
     (let (buf, len) = vsnprintf buf0 1024 out
      in case obstack_grow r s (buf @ beyond) (scast len) of
           Inl e \<Rightarrow> Inl e
         | Inr s1 \<Rightarrow> Inr (sint len, s1))"

definition obstack_printf ::
    "addr \<Rightarrow> state \<Rightarrow> byte list \<Rightarrow> byte list \<Rightarrow> byte list \<Rightarrow> failure + int \<times> state" where
  "obstack_printf r s buf0 beyond out =
     (let (buf, len) = vsnprintf buf0 1024 out
      in case obstack_grow r s (buf @ beyond) (scast len) of
           Inl e \<Rightarrow> Inl e
         | Inr s1 \<Rightarrow> Inr (sint len, s1))"

section \<open>The chain of chunks\<close>

text \<open>
  \<open>chain w lp cs\<close>: following \<open>prev\<close> from \<open>lp\<close> visits the chunks \<open>cs\<close>, each with its
  header in memory and none twice, and then reaches the null pointer.
\<close>

fun chain :: "world \<Rightarrow> addr \<Rightarrow> addr list \<Rightarrow> bool" where
  "chain w lp [] = (lp = 0)"
| "chain w lp (c # cs) =
     (lp = c \<and> c \<noteq> 0 \<and> c \<notin> set cs
      \<and> (case chunks w c of None \<Rightarrow> False | Some ch \<Rightarrow> chain w (prev ch) cs))"

text \<open>
  \<open>holds w obj c\<close>: the chunk \<open>c\<close> has its header in memory and the test of the walks
  lets it stand, that is \<open>c < obj\<close> and \<open>obj \<le> c->limit\<close>.
\<close>

definition holds :: "world \<Rightarrow> addr \<Rightarrow> addr \<Rightarrow> bool" where
  "holds w obj c = (case chunks w c of None \<Rightarrow> False | Some ch \<Rightarrow> \<not> outside obj c ch)"

section \<open>The public operations as data\<close>

text \<open>
  The operations that may call the allocator, and the room each of them asks for.
  \<open>Newchunk\<close> is a direct call of \<open>_obstack_newchunk\<close>. \<open>obstack_alloc\<close>, \<open>obstack_copy\<close>
  and \<open>obstack_copy0\<close> are a growth followed by \<open>obstack_finish\<close>.
\<close>

datatype growth =
    Newchunk size_t
  | Make_room size_t
  | Blank size_t
  | Grow1 byte
  | Ptr_grow "byte list"
  | Int_grow "byte list"
  | Grow "byte list" size_t
  | Grow0 "byte list" size_t

fun grow_op :: "addr \<Rightarrow> growth \<Rightarrow> state \<Rightarrow> failure + state" where
  "grow_op r (Newchunk n) s = U_obstack_newchunk r s n"
| "grow_op r (Make_room n) s = obstack_make_room r s n"
| "grow_op r (Blank n) s = obstack_blank r s n"
| "grow_op r (Grow1 b) s = obstack_1grow r s b"
| "grow_op r (Ptr_grow rep) s = obstack_ptr_grow r s rep"
| "grow_op r (Int_grow rep) s = obstack_int_grow r s rep"
| "grow_op r (Grow bs n) s = obstack_grow r s bs n"
| "grow_op r (Grow0 bs n) s = obstack_grow0 r s bs n"

fun demand :: "growth \<Rightarrow> size_t" where
  "demand (Newchunk n) = n"
| "demand (Make_room n) = n"
| "demand (Blank n) = n"
| "demand (Grow1 b) = 1"
| "demand (Ptr_grow rep) = 8"
| "demand (Int_grow rep) = 4"
| "demand (Grow bs n) = n"
| "demand (Grow0 bs n) = n + 1"

section \<open>What is assumed of the caller and of the allocator\<close>

text \<open>
  \<open>in_range r n\<close>: the answer \<open>r\<close> of the allocator to a request of \<open>n\<close> bytes is null, or a
  block that does not wrap around the address space, of a size an allocator can grant (below
  \<open>2^63\<close>, as \<open>PTRDIFF_MAX\<close> bounds every C object).
\<close>

definition in_range :: "addr \<Rightarrow> size_t \<Rightarrow> bool" where
  "in_range r n = (r = 0 \<or> (unat r + unat n < 2 ^ 64 \<and> unat n < 2 ^ 63))"

text \<open>
  \<open>granted w r n\<close>: moreover the block overlaps no chunk that is held.
\<close>

definition granted :: "world \<Rightarrow> addr \<Rightarrow> size_t \<Rightarrow> bool" where
  "granted w r n =
     (r = 0 \<or> (unat r + unat n < 2 ^ 64 \<and> unat n < 2 ^ 63
               \<and> (\<forall>c ch. chunks w c = Some ch \<longrightarrow>
                     unat r + unat n \<le> unat c \<or> unat (limit ch) \<le> unat r)))"

section \<open>Resting states\<close>

text \<open>
  The ordering of the three cursors, with the address of the current chunk below them.
\<close>

definition ordering :: "obstack \<Rightarrow> bool" where
  "ordering h = (chunk h \<le> object_base h \<and> object_base h \<le> next_free h
                 \<and> next_free h \<le> chunk_limit h)"

text \<open>
  \<open>resting s\<close>: the state \<open>s\<close> is reached from an initialization by public operations that
  returned. The first chunk is large enough for its header and the alignment padding
  (\<open>chunk->contents\<close> is at offset 16); \<open>obstack_free\<close>, the macro or the function
  \<open>_obstack_free\<close> that goes by the same name, is given any pointer. The answer
  \<open>r\<close> matters only to an operation that calls the allocator, and is then the answer to a
  request of \<open>newchunk_size\<close> bytes.
\<close>

inductive resting :: "state \<Rightarrow> bool" where
  resting_begin:
    "U_obstack_begin r s0 size0 alignment0 = Inr (h, w) \<Longrightarrow>
     16 + unat (alignment_mask h) \<le> unat (chunk_size h) \<Longrightarrow>
     in_range r (chunk_size h) \<Longrightarrow> resting (h, w)"
| resting_begin_1:
    "U_obstack_begin_1 r s0 size0 alignment0 = Inr (h, w) \<Longrightarrow>
     16 + unat (alignment_mask h) \<le> unat (chunk_size h) \<Longrightarrow>
     in_range r (chunk_size h) \<Longrightarrow> resting (h, w)"
| resting_grow:
    "resting s \<Longrightarrow> grow_op r g s = Inr s' \<Longrightarrow>
     in_range r (newchunk_size (fst s) (demand g)) \<Longrightarrow> resting s'"
| resting_finish:
    "resting s \<Longrightarrow> obstack_finish s = (p, s') \<Longrightarrow> resting s'"
| resting_free:
    "resting s \<Longrightarrow> obstack_free s obj = Inr s' \<Longrightarrow> resting s'"
| resting_free_fn:
    "resting s \<Longrightarrow> U_obstack_free s obj = Inr s' \<Longrightarrow> resting s'"

text \<open>
  The objects that \<open>obstack_finish\<close> has returned and \<open>obstack_free\<close> has not freed, newest
  first, each with its address and the chunk that was current when it was finished.
  \<open>after_free p live\<close> drops the objects down to the newest one at the address \<open>p\<close>,
  that one included.
\<close>

type_synonym objects = "(addr \<times> addr) list"

definition after_free :: "addr \<Rightarrow> objects \<Rightarrow> objects" where
  "after_free p live = tl (dropWhile (\<lambda>(q, c). q \<noteq> p) live)"

text \<open>
  \<open>tracked s live\<close>: as \<open>resting\<close>, with the alignment a power of two, the allocator's
  blocks apart from the chunks held, and \<open>obstack_free\<close> (or \<open>_obstack_free\<close>) given only the
  address of an object that is live; \<open>live\<close> lists the live objects of \<open>s\<close>.
\<close>

inductive tracked :: "state \<Rightarrow> objects \<Rightarrow> bool" where
  tracked_begin:
    "U_obstack_begin r s0 size0 alignment0 = Inr (h, w) \<Longrightarrow>
     16 + unat (alignment_mask h) \<le> unat (chunk_size h) \<Longrightarrow>
     alignment_mask h = mask k \<Longrightarrow>
     in_range r (chunk_size h) \<Longrightarrow> tracked (h, w) []"
| tracked_begin_1:
    "U_obstack_begin_1 r s0 size0 alignment0 = Inr (h, w) \<Longrightarrow>
     16 + unat (alignment_mask h) \<le> unat (chunk_size h) \<Longrightarrow>
     alignment_mask h = mask k \<Longrightarrow>
     in_range r (chunk_size h) \<Longrightarrow> tracked (h, w) []"
| tracked_grow:
    "tracked s live \<Longrightarrow> grow_op r g s = Inr s' \<Longrightarrow>
     granted (snd s) r (newchunk_size (fst s) (demand g)) \<Longrightarrow> tracked s' live"
| tracked_finish:
    "tracked s live \<Longrightarrow> obstack_finish s = (p, s') \<Longrightarrow>
     tracked s' ((p, chunk (fst s)) # live)"
| tracked_free:
    "tracked s live \<Longrightarrow> (p, c) \<in> set live \<Longrightarrow> obstack_free s p = Inr s' \<Longrightarrow>
     tracked s' (after_free p live)"
| tracked_free_fn:
    "tracked s live \<Longrightarrow> (p, c) \<in> set live \<Longrightarrow> U_obstack_free s p = Inr s' \<Longrightarrow>
     tracked s' (after_free p live)"

section \<open>The invariant of tracked states\<close>

text \<open>The limit stored in the header of a chunk.\<close>

definition lim :: "world \<Rightarrow> addr \<Rightarrow> addr" where
  "lim w c = (case chunks w c of None \<Rightarrow> 0 | Some ch \<Rightarrow> limit ch)"

text \<open>A chunk has room for its header and the alignment padding.\<close>

definition chunk_ok :: "obstack \<Rightarrow> world \<Rightarrow> addr \<Rightarrow> bool" where
  "chunk_ok h w c = (unat c + 16 + unat (alignment_mask h) \<le> unat (lim w c))"

text \<open>The chunks of a list do not overlap.\<close>

definition disjoint_chunks :: "world \<Rightarrow> addr list \<Rightarrow> bool" where
  "disjoint_chunks w cs =
     (\<forall>c1\<in>set cs. \<forall>c2\<in>set cs. c1 \<noteq> c2 \<longrightarrow>
        unat (lim w c1) \<le> unat c2 \<or> unat (lim w c2) \<le> unat c1)"

text \<open>
  An object lies between the aligned start of the contents of its chunk and the limit of the
  chunk, and is aligned unless it is at the limit.
\<close>

definition object_ok :: "obstack \<Rightarrow> world \<Rightarrow> addr \<times> addr \<Rightarrow> bool" where
  "object_ok h w ob =
     (case ob of (p, c) \<Rightarrow>
        PTR_ALIGN c (contents c) (alignment_mask h) \<le> p \<and> p \<le> lim w c
        \<and> (p AND alignment_mask h = 0 \<or> p = lim w c))"

text \<open>
  \<open>placed cs os\<close>: the chunks of the objects \<open>os\<close> (newest first) are met in this order
  along the chain \<open>cs\<close> (newest first): an older object is in the same chunk or in an older
  one.
\<close>

fun placed :: "addr list \<Rightarrow> objects \<Rightarrow> bool" where
  "placed cs [] = True"
| "placed cs ((p, c) # os) =
     (c \<in> set cs \<and> (\<forall>ob\<in>set os. snd ob \<in> set (dropWhile (\<lambda>x. x \<noteq> c) cs)) \<and> placed cs os)"

text \<open>
  \<open>sorted_objs cur me os\<close>: within a chunk an older object is at a lower or the same address;
  two objects of the current chunk \<open>cur\<close> are at the same address only if
  \<open>maybe_empty_object\<close> (\<open>me\<close>) is set.
\<close>

fun sorted_objs :: "addr \<Rightarrow> bool \<Rightarrow> objects \<Rightarrow> bool" where
  "sorted_objs cur me [] = True"
| "sorted_objs cur me ((p, c) # os) =
     ((\<forall>ob\<in>set os. snd ob = c \<longrightarrow> fst ob \<le> p \<and> (fst ob = p \<longrightarrow> c \<noteq> cur \<or> me))
      \<and> sorted_objs cur me os)"

text \<open>
  The invariant, for the chain \<open>cs\<close> of the chunks of the stack. The growing object counts
  as the newest object.
\<close>

definition inv :: "state \<Rightarrow> objects \<Rightarrow> addr list \<Rightarrow> bool" where
  "inv s live cs =
     (case s of (h, w) \<Rightarrow>
        chain w (chunk h) cs \<and> chunk h \<noteq> 0
        \<and> chunk_limit h = lim w (chunk h)
        \<and> (\<exists>k. alignment_mask h = mask k)
        \<and> ordering h
        \<and> (\<forall>c\<in>set cs. chunk_ok h w c)
        \<and> disjoint_chunks w cs
        \<and> (\<forall>ob\<in>set ((object_base h, chunk h) # live). object_ok h w ob)
        \<and> placed cs ((object_base h, chunk h) # live)
        \<and> sorted_objs (chunk h) (maybe_empty_object h) ((object_base h, chunk h) # live))"

section \<open>Example states\<close>

text \<open>A control block and a memory before \<open>_obstack_begin\<close>.\<close>

definition h_blank :: obstack where
  "h_blank = \<lparr>chunk_size = 0, chunk = 0, object_base = 0, next_free = 0, chunk_limit = 0,
     alignment_mask = 0, use_extra_arg = False, maybe_empty_object = False, alloc_failed = False\<rparr>"

definition w_blank :: world where
  "w_blank = \<lparr>chunks = Map.empty, mem = (\<lambda>a. 0), requested = [], released = []\<rparr>"

text \<open>
  The state after \<open>_obstack_begin\<close> with chunk size \<open>0x1000\<close> and alignment 16, the allocator
  answering \<open>0x1000\<close>.
\<close>

definition h_one :: obstack where
  "h_one = \<lparr>chunk_size = 0x1000, chunk = 0x1000, object_base = 0x1010, next_free = 0x1010,
     chunk_limit = 0x2000, alignment_mask = 15, use_extra_arg = False,
     maybe_empty_object = False, alloc_failed = False\<rparr>"

definition w_one :: world where
  "w_one = \<lparr>chunks = [0x1000 \<mapsto> \<lparr>limit = 0x2000, prev = 0\<rparr>], mem = (\<lambda>a. 0),
     requested = [0x1000], released = []\<rparr>"

text \<open>
  The state after \<open>_obstack_begin\<close> with chunk size 80 and alignment 8, the allocator
  answering \<open>2^64 - 88\<close>: a chunk of 80 bytes that ends 8 bytes below the top of the address
  space.
\<close>

definition h_top :: obstack where
  "h_top = \<lparr>chunk_size = 80, chunk = 0xFFFFFFFFFFFFFFA8, object_base = 0xFFFFFFFFFFFFFFB8,
     next_free = 0xFFFFFFFFFFFFFFB8, chunk_limit = 0xFFFFFFFFFFFFFFF8, alignment_mask = 7,
     use_extra_arg = False, maybe_empty_object = False, alloc_failed = False\<rparr>"

definition w_top :: world where
  "w_top = \<lparr>chunks = [0xFFFFFFFFFFFFFFA8 \<mapsto> \<lparr>limit = 0xFFFFFFFFFFFFFFF8, prev = 0\<rparr>],
     mem = (\<lambda>a. 0), requested = [80], released = []\<rparr>"

text \<open>
  The state after \<open>_obstack_begin\<close> with chunk size 20 and alignment 32, the allocator
  answering \<open>0x1000\<close>.
\<close>

definition h_tiny :: obstack where
  "h_tiny = \<lparr>chunk_size = 20, chunk = 0x1000, object_base = 0x1020, next_free = 0x1020,
     chunk_limit = 0x1014, alignment_mask = 31, use_extra_arg = False,
     maybe_empty_object = False, alloc_failed = False\<rparr>"

definition w_tiny :: world where
  "w_tiny = \<lparr>chunks = [0x1000 \<mapsto> \<lparr>limit = 0x1014, prev = 0\<rparr>], mem = (\<lambda>a. 0),
     requested = [20], released = []\<rparr>"

text \<open>
  The state after \<open>_obstack_begin\<close> with chunk size 46 and alignment 16, the allocator
  answering \<open>0x1000\<close>, and the state after an object of 26 bytes has been finished in it:
  \<open>obstack_finish\<close> has clamped \<open>next_free\<close> to the limit \<open>0x102E\<close>.
\<close>

definition h_small :: obstack where
  "h_small = \<lparr>chunk_size = 46, chunk = 0x1000, object_base = 0x1010, next_free = 0x1010,
     chunk_limit = 0x102E, alignment_mask = 15, use_extra_arg = False,
     maybe_empty_object = False, alloc_failed = False\<rparr>"

definition w_small :: world where
  "w_small = \<lparr>chunks = [0x1000 \<mapsto> \<lparr>limit = 0x102E, prev = 0\<rparr>], mem = (\<lambda>a. 0),
     requested = [46], released = []\<rparr>"

definition h_full :: obstack where
  "h_full = h_small\<lparr>object_base := 0x102E, next_free := 0x102E\<rparr>"

text \<open>
  The state after \<open>_obstack_begin\<close> with chunk size 64 and alignment 16, the allocator
  answering \<open>0x2000\<close>; and the state after an object of 8 bytes and an object of 100 bytes
  have been finished, the allocator answering \<open>0x1000\<close> for the second chunk.
\<close>

definition h_hi :: obstack where
  "h_hi = \<lparr>chunk_size = 64, chunk = 0x2000, object_base = 0x2010, next_free = 0x2010,
     chunk_limit = 0x2040, alignment_mask = 15, use_extra_arg = False,
     maybe_empty_object = False, alloc_failed = False\<rparr>"

definition w_hi :: world where
  "w_hi = \<lparr>chunks = [0x2000 \<mapsto> \<lparr>limit = 0x2040, prev = 0\<rparr>], mem = (\<lambda>a. 0),
     requested = [64], released = []\<rparr>"

definition h_lo :: obstack where
  "h_lo = h_hi\<lparr>chunk := 0x1000, chunk_limit := 0x10D7, object_base := 0x1080,
     next_free := 0x1080\<rparr>"

definition w_lo :: world where
  "w_lo = \<lparr>chunks = [0x2000 \<mapsto> \<lparr>limit = 0x2040, prev = 0\<rparr>,
                      0x1000 \<mapsto> \<lparr>limit = 0x10D7, prev = 0x2000\<rparr>],
     mem = (\<lambda>a. 0), requested = [64, 215], released = []\<rparr>"

section \<open>The example states are states of the code\<close>

declare free_chunks.simps [simp del]

lemma begin_one: "U_obstack_begin 0x1000 (h_blank, w_blank) 0x1000 16 = Inr (h_one, w_one)"
  by (simp add: U_obstack_begin_def U_obstack_begin_worker_def call_chunkfun_def h_blank_def
      w_blank_def PTR_ALIGN_def BPTR_ALIGN_def contents_def Let_def h_one_def w_one_def)

lemma begin_top:
  "U_obstack_begin 0xFFFFFFFFFFFFFFA8 (h_blank, w_blank) 80 8 = Inr (h_top, w_top)"
  by (simp add: U_obstack_begin_def U_obstack_begin_worker_def call_chunkfun_def h_blank_def
      w_blank_def PTR_ALIGN_def BPTR_ALIGN_def contents_def Let_def h_top_def w_top_def)

lemmas run_defs = U_obstack_begin_def U_obstack_begin_worker_def call_chunkfun_def
  call_freefun_def PTR_ALIGN_def BPTR_ALIGN_def contents_def Let_def
  obstack_alloc_def obstack_blank_def obstack_blank_fast_def obstack_make_room_def
  obstack_room_def obstack_finish_def U_obstack_newchunk_def newchunk_sums_ok_def
  newchunk_size_def newchunk_sum2_def newchunk_sum1_def memcpy_def

lemma begin_small: "U_obstack_begin 0x1000 (h_blank, w_blank) 46 16 = Inr (h_small, w_small)"
  by (simp add: run_defs h_blank_def w_blank_def h_small_def w_small_def)

lemma alloc_small: "obstack_alloc 0 (h_small, w_small) 26 = Inr (0x1010, (h_full, w_small))"
  by (simp add: run_defs h_small_def h_full_def)

lemma blank_small:
  "grow_op 0 (Blank 26) (h_small, w_small) = Inr (h_small\<lparr>next_free := 0x102A\<rparr>, w_small)"
  by (simp add: run_defs h_small_def)

lemma finish_small:
  "obstack_finish (h_small\<lparr>next_free := 0x102A\<rparr>, w_small) = (0x1010, (h_full, w_small))"
  by (simp add: run_defs h_small_def h_full_def)

lemma finish_full:
  "obstack_finish (h_full, w_small) = (0x102E, (h_full\<lparr>maybe_empty_object := True\<rparr>, w_small))"
  by (simp add: run_defs h_small_def h_full_def)

lemma tracked_full: "tracked (h_full, w_small) [(0x1010, 0x1000)]"
proof -
  have "alignment_mask h_small = mask 4"
    by (simp add: h_small_def mask_eq_exp_minus_1)
  moreover have "16 + unat (alignment_mask h_small) \<le> unat (chunk_size h_small)"
    "in_range 0x1000 (chunk_size h_small)"
    by (simp_all add: h_small_def in_range_def)
  ultimately have "tracked (h_small, w_small) []"
    using begin_small by (intro tracked_begin [of "0x1000" "(h_blank, w_blank)" 46 16 _ _ 4])
  then have "tracked (h_small\<lparr>next_free := 0x102A\<rparr>, w_small) []"
    using blank_small by (rule tracked_grow) (simp add: granted_def)
  from tracked_finish [OF this finish_small] show ?thesis
    by (simp add: h_small_def)
qed

lemma begin_hi: "U_obstack_begin 0x2000 (h_blank, w_blank) 64 16 = Inr (h_hi, w_hi)"
  by (simp add: run_defs h_blank_def w_blank_def h_hi_def w_hi_def)

lemma alloc_hi:
  "obstack_alloc 0 (h_hi, w_hi) 8
     = Inr (0x2010, (h_hi\<lparr>object_base := 0x2020, next_free := 0x2020\<rparr>, w_hi))"
  by (simp add: run_defs h_hi_def)

lemma alloc_lo:
  "obstack_alloc 0x1000 (h_hi\<lparr>object_base := 0x2020, next_free := 0x2020\<rparr>, w_hi) 100
     = Inr (0x1010, (h_lo, w_lo))"
  by (simp add: run_defs h_hi_def h_lo_def w_hi_def w_lo_def)

lemma free_hi:
  "obstack_free (h_lo, w_lo) 0x2010
     = Inr (h_hi\<lparr>maybe_empty_object := True\<rparr>,
            w_lo\<lparr>chunks := [0x2000 \<mapsto> \<lparr>limit = 0x2040, prev = 0\<rparr>], released := [0x1000]\<rparr>)"
  by (simp add: obstack_free_def U_obstack_free_def free_chunks.simps outside_def
      call_freefun_def h_hi_def h_lo_def w_lo_def)

lemma blank_hi:
  "grow_op 0 (Blank 8) (h_hi, w_hi) = Inr (h_hi\<lparr>next_free := 0x2018\<rparr>, w_hi)"
  by (simp add: run_defs h_hi_def)

lemma finish_hi:
  "obstack_finish (h_hi\<lparr>next_free := 0x2018\<rparr>, w_hi)
     = (0x2010, (h_hi\<lparr>object_base := 0x2020, next_free := 0x2020\<rparr>, w_hi))"
  by (simp add: run_defs h_hi_def)

lemma blank_lo:
  "grow_op 0x1000 (Blank 100) (h_hi\<lparr>object_base := 0x2020, next_free := 0x2020\<rparr>, w_hi)
     = Inr (h_lo\<lparr>object_base := 0x1010, next_free := 0x1074\<rparr>, w_lo)"
  by (simp add: run_defs h_hi_def h_lo_def w_hi_def w_lo_def)

lemma finish_lo:
  "obstack_finish (h_lo\<lparr>object_base := 0x1010, next_free := 0x1074\<rparr>, w_lo)
     = (0x1010, (h_lo, w_lo))"
  by (simp add: run_defs h_hi_def h_lo_def)

lemma tracked_lo: "tracked (h_lo, w_lo) [(0x1010, 0x1000), (0x2010, 0x2000)]"
proof -
  have "alignment_mask h_hi = mask 4"
    by (simp add: h_hi_def mask_eq_exp_minus_1)
  moreover have "16 + unat (alignment_mask h_hi) \<le> unat (chunk_size h_hi)"
    "in_range 0x2000 (chunk_size h_hi)"
    by (simp_all add: h_hi_def in_range_def)
  ultimately have "tracked (h_hi, w_hi) []"
    using begin_hi by (intro tracked_begin [of "0x2000" "(h_blank, w_blank)" 64 16 _ _ 4])
  then have "tracked (h_hi\<lparr>next_free := 0x2018\<rparr>, w_hi) []"
    using blank_hi by (rule tracked_grow) (simp add: granted_def)
  from tracked_finish [OF this finish_hi]
  have "tracked (h_hi\<lparr>object_base := 0x2020, next_free := 0x2020\<rparr>, w_hi) [(0x2010, 0x2000)]"
    by (simp add: h_hi_def)
  then have "tracked (h_lo\<lparr>object_base := 0x1010, next_free := 0x1074\<rparr>, w_lo) [(0x2010, 0x2000)]"
    using blank_lo
    by (rule tracked_grow)
      (auto simp: granted_def newchunk_size_def newchunk_sum2_def newchunk_sum1_def Let_def
        h_hi_def w_hi_def split: if_splits)
  from tracked_finish [OF this finish_lo] show ?thesis
    by (simp add: h_lo_def)
qed

section \<open>Giving chunks back\<close>

lemma chain_call_freefun: "chain w lp cs \<Longrightarrow> x \<notin> set cs \<Longrightarrow> chain (call_freefun w x) lp cs"
  by (induction cs arbitrary: lp) (auto simp: call_freefun_def split: option.splits)

lemma chunks_call_freefun: "chunks (call_freefun w x) y = (if y = x then None else chunks w y)"
  by (simp add: call_freefun_def)

lemma chunks_foldl_freefun:
  "chunks (foldl call_freefun w cs) x = (if x \<in> set cs then None else chunks w x)"
  by (induction cs arbitrary: w) (auto simp: chunks_call_freefun)

lemma released_foldl_freefun: "released (foldl call_freefun w cs) = released w @ cs"
  by (induction cs arbitrary: w) (auto simp: call_freefun_def)

lemma mem_foldl_freefun: "mem (foldl call_freefun w cs) = mem w"
  by (induction cs arbitrary: w) (auto simp: call_freefun_def)

lemma requested_foldl_freefun: "requested (foldl call_freefun w cs) = requested w"
  by (induction cs arbitrary: w) (auto simp: call_freefun_def)

text \<open>
  The walk of \<open>_obstack_free\<close> along a chain: it gives back the chunks in front of the first
  one that holds \<open>obj\<close> and stops there.
\<close>

lemma free_chunks_found:
  "chain w lp (pre @ f # post) \<Longrightarrow> \<forall>c\<in>set pre. \<not> holds w obj c \<Longrightarrow> holds w obj f \<Longrightarrow>
   free_chunks obj lp (h, w)
     = Inr (f, (if pre = [] then h else h\<lparr>maybe_empty_object := True\<rparr>), foldl call_freefun w pre)"
proof (induction pre arbitrary: lp h w)
  case Nil
  then show ?case
    by (subst free_chunks.simps) (auto simp: holds_def split: option.splits)
next
  case (Cons c pre)
  from Cons.prems obtain ch where ch: "chunks w c = Some ch" "lp = c" "c \<noteq> 0"
      "c \<notin> set (pre @ f # post)" "chain w (prev ch) (pre @ f # post)"
    by (auto split: option.splits)
  from Cons.prems ch have out: "outside obj c ch"
    by (simp add: holds_def)
  have 1: "chain (call_freefun w c) (prev ch) (pre @ f # post)"
    using ch by (intro chain_call_freefun) auto
  have 2: "\<forall>x\<in>set pre. \<not> holds (call_freefun w c) obj x"
    using Cons.prems ch by (auto simp: holds_def chunks_call_freefun)
  have 3: "holds (call_freefun w c) obj f"
    using Cons.prems ch by (auto simp: holds_def chunks_call_freefun)
  show ?case
    using Cons.IH [OF 1 2 3, of "h\<lparr>maybe_empty_object := True\<rparr>"] ch out
    by (subst free_chunks.simps) simp
qed

text \<open>... or gives all of them back when none holds \<open>obj\<close>.\<close>

lemma free_chunks_exhausted:
  "chain w lp cs \<Longrightarrow> \<forall>c\<in>set cs. \<not> holds w obj c \<Longrightarrow>
   free_chunks obj lp (h, w)
     = Inr (0, (if cs = [] then h else h\<lparr>maybe_empty_object := True\<rparr>), foldl call_freefun w cs)"
proof (induction cs arbitrary: lp h w)
  case Nil
  then show ?case
    by (subst free_chunks.simps) auto
next
  case (Cons c cs)
  from Cons.prems obtain ch where ch: "chunks w c = Some ch" "lp = c" "c \<noteq> 0"
      "c \<notin> set cs" "chain w (prev ch) cs"
    by (auto split: option.splits)
  from Cons.prems ch have out: "outside obj c ch"
    by (simp add: holds_def)
  have 1: "chain (call_freefun w c) (prev ch) cs"
    using ch by (intro chain_call_freefun) auto
  have 2: "\<forall>x\<in>set cs. \<not> holds (call_freefun w c) obj x"
    using Cons.prems ch by (auto simp: holds_def chunks_call_freefun)
  show ?case
    using Cons.IH [OF 1 2, of "h\<lparr>maybe_empty_object := True\<rparr>"] ch out
    by (subst free_chunks.simps) simp
qed

section \<open>Old-chunk recycling\<close>

text \<open>
  C2. Whenever the sums do not overflow and the allocator answers with a chunk \<open>r\<close> (not
  null, and not the current chunk, whose header is held), \<open>_obstack_newchunk\<close> returns with
  \<open>r\<close> as the current chunk, and: the chunk free function has been called on the old chunk,
  and the old chunk is out of the chain (the new chunk's \<open>prev\<close> is the old chunk's \<open>prev\<close>),
  if and only if \<open>maybe_empty_object\<close> was clear and \<open>object_base\<close> was the aligned start of
  the old chunk's contents. Otherwise nothing is given back, the old chunk keeps its header
  and the new chunk's \<open>prev\<close> is the old chunk.
\<close>

theorem old_chunk_recycling:
  assumes "r \<noteq> 0" and "r \<noteq> chunk h" and "newchunk_sums_ok h len"
    and "chunks w (chunk h) = Some oc"
  shows "\<exists>h' w'. U_obstack_newchunk r (h, w) len = Inr (h', w')
           \<and> chunk h' = r
           \<and> (if \<not> maybe_empty_object h
                  \<and> object_base h = PTR_ALIGN (chunk h) (contents (chunk h)) (alignment_mask h)
               then released w' = released w @ [chunk h]
                    \<and> chunks w' (chunk h) = None
                    \<and> chunks w' r = Some \<lparr>limit = r + newchunk_size h len, prev = prev oc\<rparr>
               else released w' = released w
                    \<and> chunks w' (chunk h) = Some oc
                    \<and> chunks w' r = Some \<lparr>limit = r + newchunk_size h len, prev = chunk h\<rparr>)"
  using assms
  by (simp add: U_obstack_newchunk_def call_chunkfun_def call_freefun_def Let_def)

text \<open>
  Two migrations with the allocator answering \<open>0x3000\<close>: of an object of 16 bytes that is
  alone in the chunk of \<open>h_one\<close>, which is given back; and of the empty object at the end of
  the chunk of \<open>h_full\<close>, which holds a finished object and is kept.
\<close>

theorem old_chunk_recycling_witness:
  "(\<exists>h' w'. U_obstack_newchunk 0x3000 (h_one\<lparr>next_free := 0x1020\<rparr>, w_one) 0x1000 = Inr (h', w')
       \<and> chunk h' = 0x3000 \<and> released w' = [0x1000] \<and> chunks w' 0x1000 = None
       \<and> chunks w' 0x3000 = Some \<lparr>limit = 0x4085, prev = 0\<rparr>)
   \<and> (\<exists>h' w'. U_obstack_newchunk 0x3000 (h_full, w_small) 1 = Inr (h', w')
       \<and> chunk h' = 0x3000 \<and> released w' = []
       \<and> chunks w' 0x1000 = Some \<lparr>limit = 0x102E, prev = 0\<rparr>
       \<and> chunks w' 0x3000 = Some \<lparr>limit = 0x3074, prev = 0x1000\<rparr>)"
proof
  have "\<not> maybe_empty_object (h_one\<lparr>next_free := 0x1020\<rparr>)
      \<and> object_base (h_one\<lparr>next_free := 0x1020\<rparr>)
          = PTR_ALIGN (chunk (h_one\<lparr>next_free := 0x1020\<rparr>))
              (contents (chunk (h_one\<lparr>next_free := 0x1020\<rparr>)))
              (alignment_mask (h_one\<lparr>next_free := 0x1020\<rparr>))"
    "newchunk_size (h_one\<lparr>next_free := 0x1020\<rparr>) 0x1000 = 0x1085"
    by (simp_all add: h_one_def PTR_ALIGN_def BPTR_ALIGN_def contents_def newchunk_size_def
        newchunk_sum2_def newchunk_sum1_def)
  then show "\<exists>h' w'. U_obstack_newchunk 0x3000 (h_one\<lparr>next_free := 0x1020\<rparr>, w_one) 0x1000
         = Inr (h', w')
       \<and> chunk h' = 0x3000 \<and> released w' = [0x1000] \<and> chunks w' 0x1000 = None
       \<and> chunks w' 0x3000 = Some \<lparr>limit = 0x4085, prev = 0\<rparr>"
    using old_chunk_recycling [of "0x3000" "h_one\<lparr>next_free := 0x1020\<rparr>" "0x1000" w_one
        "\<lparr>limit = 0x2000, prev = 0\<rparr>"]
    by (simp add: h_one_def w_one_def newchunk_sums_ok_def newchunk_sum1_def newchunk_sum2_def)
next
  have "object_base h_full
          \<noteq> PTR_ALIGN (chunk h_full) (contents (chunk h_full)) (alignment_mask h_full)"
    "newchunk_size h_full 1 = 0x74"
    by (simp_all add: h_full_def h_small_def PTR_ALIGN_def BPTR_ALIGN_def contents_def
        newchunk_size_def newchunk_sum2_def newchunk_sum1_def)
  then show "\<exists>h' w'. U_obstack_newchunk 0x3000 (h_full, w_small) 1 = Inr (h', w')
       \<and> chunk h' = 0x3000 \<and> released w' = []
       \<and> chunks w' 0x1000 = Some \<lparr>limit = 0x102E, prev = 0\<rparr>
       \<and> chunks w' 0x3000 = Some \<lparr>limit = 0x3074, prev = 0x1000\<rparr>"
    using old_chunk_recycling [of "0x3000" h_full 1 w_small "\<lparr>limit = 0x102E, prev = 0\<rparr>"]
    by (simp add: h_full_def h_small_def w_small_def newchunk_sums_ok_def newchunk_sum1_def
        newchunk_sum2_def)
qed

section \<open>Overflow in the size of the new chunk\<close>

lemma sums_ok_iff:
  "newchunk_sums_ok h len \<longleftrightarrow>
     unat (next_free h - object_base h) + unat len < 2 ^ 64
     \<and> unat (newchunk_sum1 h len) + unat (alignment_mask h) < 2 ^ 64"
  by (simp add: newchunk_sums_ok_def newchunk_sum1_def newchunk_sum2_def no_olen_add_nat)

lemma headroom_overflow:
  fixes sum2 x :: size_t
  shows "(sum2 + drop_bit 3 x + 100 < sum2)
           \<longleftrightarrow> 2 ^ 64 \<le> unat sum2 + unat (drop_bit 3 x) + 100"
proof -
  have a: "unat (drop_bit 3 x) < 2 ^ 61"
    using unsigned_less [of x, where ?'a = nat] by (simp add: drop_bit_eq_div unat_div)
  have b: "unat sum2 < 2 ^ 64"
    using unsigned_less [of sum2, where ?'a = nat] by simp
  have "unat (sum2 + drop_bit 3 x + 100) = (unat sum2 + unat (drop_bit 3 x) + 100) mod 2 ^ 64"
    by (simp add: unat_word_ariths mod_simps)
  then show ?thesis
    using a b by (auto simp: word_less_nat_alt) (simp_all add: mod_if split: if_splits)
qed

lemma newchunk_alloc_failed_iff:
  "U_obstack_newchunk r (h, w) len = Inl (Alloc_failed h' w') \<longleftrightarrow>
     h' = h \<and> (if newchunk_sums_ok h len
                then r = 0 \<and> w' = w\<lparr>requested := requested w @ [newchunk_size h len]\<rparr>
                else w' = w)"
  by (auto simp: U_obstack_newchunk_def call_chunkfun_def Let_def split: option.splits)

lemma newchunk_size_headroom_overflow:
  assumes "2 ^ 64 \<le> unat (newchunk_sum2 h len)
                     + unat (drop_bit 3 (next_free h - object_base h)) + 100"
  shows "newchunk_size h len = max (newchunk_sum2 h len) (chunk_size h)"
  using assms headroom_overflow [of "newchunk_sum2 h len" "next_free h - object_base h"]
  by (auto simp add: newchunk_size_def Let_def max_def)

text \<open>
  C4. Each of the three additions is checked for overflow, and whenever one of them overflows
  \<open>_obstack_newchunk\<close> calls the failure handler, with the control block, the chunks and the
  memory untouched; the allocator is one that grants no block of \<open>2^63\<close> bytes or more and
  none that wraps around the address space (\<open>in_range\<close>). When \<open>obj_size + length\<close> or
  \<open>sum1 + alignment_mask\<close> overflows, the allocator is not called at all. When only the
  headroom addition \<open>sum2 + (obj_size >> 3) + 100\<close> overflows, the size falls back to
  \<open>sum2\<close> (or \<open>chunk_size\<close> if that is larger), the allocator is asked for that many bytes,
  at least \<open>2^63\<close>, and answers null.
\<close>

theorem newchunk_overflow_handling:
  assumes "in_range r (newchunk_size h len)"
    and "2 ^ 64 \<le> unat (next_free h - object_base h) + unat len
         \<or> 2 ^ 64 \<le> unat (newchunk_sum1 h len) + unat (alignment_mask h)
         \<or> 2 ^ 64 \<le> unat (newchunk_sum2 h len)
                      + unat (drop_bit 3 (next_free h - object_base h)) + 100"
  shows "\<exists>w'. U_obstack_newchunk r (h, w) len = Inl (Alloc_failed h w')
           \<and> chunks w' = chunks w \<and> mem w' = mem w \<and> released w' = released w
           \<and> (if 2 ^ 64 \<le> unat (next_free h - object_base h) + unat len
                   \<or> 2 ^ 64 \<le> unat (newchunk_sum1 h len) + unat (alignment_mask h)
                then w' = w
                else r = 0
                     \<and> w' = w\<lparr>requested := requested w
                                @ [max (newchunk_sum2 h len) (chunk_size h)]\<rparr>)"
proof (cases "newchunk_sums_ok h len")
  case False
  then show ?thesis
    by (auto simp: newchunk_alloc_failed_iff sums_ok_iff)
next
  case True
  with assms(2) have over: "2 ^ 64 \<le> unat (newchunk_sum2 h len)
                      + unat (drop_bit 3 (next_free h - object_base h)) + 100"
    by (auto simp: sums_ok_iff)
  have size: "newchunk_size h len = max (newchunk_sum2 h len) (chunk_size h)"
    using over by (rule newchunk_size_headroom_overflow)
  have "unat (drop_bit 3 (next_free h - object_base h)) < 2 ^ 61"
    using unsigned_less [of "next_free h - object_base h", where ?'a = nat]
    by (simp add: drop_bit_eq_div unat_div)
  with over have "2 ^ 63 \<le> unat (newchunk_sum2 h len)"
    by simp
  moreover have "unat (newchunk_sum2 h len) \<le> unat (max (newchunk_sum2 h len) (chunk_size h))"
    by (simp add: word_le_nat_alt [symmetric])
  ultimately have "r = 0"
    using assms(1) by (simp add: in_range_def size)
  with True size show ?thesis
    by (auto simp: newchunk_alloc_failed_iff sums_ok_iff)
qed

text \<open>
  In \<open>h_one\<close> a request for \<open>2^64 - 1\<close> more bytes overflows \<open>sum1 + alignment_mask\<close>: the
  handler is called though the allocator would answer 8. In \<open>h_top\<close> a request for
  \<open>2^64 - 107\<close> more bytes overflows the headroom addition only: the allocator is asked for
  \<open>sum2 = 2^64 - 100\<close> bytes and answers null.
\<close>

theorem newchunk_overflow_handling_witness:
  "in_range 8 (newchunk_size h_one 0xFFFFFFFFFFFFFFFF)
   \<and> U_obstack_newchunk 8 (h_one, w_one) 0xFFFFFFFFFFFFFFFF = Inl (Alloc_failed h_one w_one)
   \<and> in_range 0 (newchunk_size h_top 0xFFFFFFFFFFFFFF95)
   \<and> U_obstack_newchunk 0 (h_top, w_top) 0xFFFFFFFFFFFFFF95
       = Inl (Alloc_failed h_top (w_top\<lparr>requested := [80, 0xFFFFFFFFFFFFFF9C]\<rparr>))"
proof (intro conjI)
  show r: "in_range 8 (newchunk_size h_one 0xFFFFFFFFFFFFFFFF)"
    by (simp add: in_range_def h_one_def newchunk_size_def newchunk_sum2_def newchunk_sum1_def)
  have "2 ^ 64 \<le> unat (newchunk_sum1 h_one 0xFFFFFFFFFFFFFFFF) + unat (alignment_mask h_one)"
    by (simp add: h_one_def newchunk_sum1_def)
  then show "U_obstack_newchunk 8 (h_one, w_one) 0xFFFFFFFFFFFFFFFF = Inl (Alloc_failed h_one w_one)"
    using newchunk_overflow_handling [OF r, of w_one] by auto
next
  show z: "in_range 0 (newchunk_size h_top 0xFFFFFFFFFFFFFF95)"
    by (simp add: in_range_def)
  have "unat (next_free h_top - object_base h_top) + unat (0xFFFFFFFFFFFFFF95 :: size_t) < 2 ^ 64"
    "unat (newchunk_sum1 h_top 0xFFFFFFFFFFFFFF95) + unat (alignment_mask h_top) < 2 ^ 64"
    "2 ^ 64 \<le> unat (newchunk_sum2 h_top 0xFFFFFFFFFFFFFF95)
                + unat (drop_bit 3 (next_free h_top - object_base h_top)) + 100"
    by (simp_all add: h_top_def newchunk_sum1_def newchunk_sum2_def)
  then have "U_obstack_newchunk 0 (h_top, w_top) 0xFFFFFFFFFFFFFF95
      = Inl (Alloc_failed h_top
          (w_top\<lparr>requested := requested w_top
             @ [max (newchunk_sum2 h_top 0xFFFFFFFFFFFFFF95) (chunk_size h_top)]\<rparr>))"
    using newchunk_overflow_handling [OF z, of w_top] by auto
  then show "U_obstack_newchunk 0 (h_top, w_top) 0xFFFFFFFFFFFFFF95
       = Inl (Alloc_failed h_top (w_top\<lparr>requested := [80, 0xFFFFFFFFFFFFFF9C]\<rparr>))"
    by (simp add: h_top_def w_top_def newchunk_sum1_def newchunk_sum2_def)
qed

text \<open>
  The assumption on the allocator is needed for the headroom addition only. Were the allocator
  to answer that request of \<open>2^64 - 100\<close> bytes in \<open>h_top\<close> with the address 8, a block that
  no allocator can grant beside the chunk held at \<open>2^64 - 88\<close>, \<open>_obstack_newchunk\<close> would
  install it and return.
\<close>

lemma headroom_overflow_outside_in_range:
  "\<not> in_range 8 (newchunk_size h_top 0xFFFFFFFFFFFFFF95)
   \<and> U_obstack_newchunk 8 (h_top, w_top) 0xFFFFFFFFFFFFFF95
     = Inr (h_top\<lparr>chunk := 8, chunk_limit := 0xFFFFFFFFFFFFFFA4, object_base := 24,
                  next_free := 24\<rparr>,
            \<lparr>chunks = [8 \<mapsto> \<lparr>limit = 0xFFFFFFFFFFFFFFA4, prev = 0\<rparr>], mem = (\<lambda>a. 0),
              requested = [80, 0xFFFFFFFFFFFFFF9C], released = [0xFFFFFFFFFFFFFFA8]\<rparr>)"
  apply (rule conjI)
   apply (simp add: in_range_def h_top_def newchunk_size_def newchunk_sum2_def newchunk_sum1_def)
  apply (simp add: h_top_def w_top_def)
  apply (simp add: U_obstack_newchunk_def newchunk_sums_ok_def newchunk_size_def
      newchunk_sum2_def newchunk_sum1_def call_chunkfun_def call_freefun_def PTR_ALIGN_def
      BPTR_ALIGN_def contents_def Let_def memcpy_def)
  done

section \<open>The containment rule of the walks\<close>

text \<open>
  C5, as the claim states it, fails: in the state \<open>h_one\<close> the only chunk has the limit
  \<open>0x2000\<close>, and for the pointer \<open>0x2000\<close> \<open>_obstack_free\<close> stops at that chunk, gives nothing
  back and makes the pointer the new \<open>object_base\<close>, and \<open>_obstack_allocated_p\<close> answers
  true.
\<close>

theorem pointer_at_limit_is_inside:
  "limit (the (chunks w_one (chunk h_one))) = 0x2000
   \<and> U_obstack_free (h_one, w_one) 0x2000
       = Inr (h_one\<lparr>object_base := 0x2000, next_free := 0x2000\<rparr>, w_one)
   \<and> released w_one = []
   \<and> U_obstack_allocated_p (h_one, w_one) 0x2000 = Some (Inr True)"
  by (simp add: h_one_def w_one_def U_obstack_free_def free_chunks.simps outside_def
      U_obstack_allocated_p_def allocated_chunk.simps)

text \<open>
  C5, amended. In the walk of \<open>_obstack_free\<close> and in that of \<open>_obstack_allocated_p\<close>, a
  pointer above the address of a chunk and at most equal to its limit is inside the chunk:
  the walk stops there and does not give the chunk back; so it is for a pointer equal to the
  limit. A pointer above the limit, or at most equal to the address of the chunk, is outside:
  \<open>_obstack_free\<close> gives the chunk back, sets \<open>maybe_empty_object\<close> and goes on with the
  previous chunk, and \<open>_obstack_allocated_p\<close> goes on with the previous chunk.
\<close>

theorem containment_rule:
  assumes "lp \<noteq> 0" and "chunks w lp = Some c"
  shows "(lp < obj \<and> obj \<le> limit c \<longrightarrow>
            free_chunks obj lp (h, w) = Inr (lp, h, w)
            \<and> allocated_chunk w obj lp = Some (Inr lp))
       \<and> (obj \<le> lp \<or> limit c < obj \<longrightarrow>
            free_chunks obj lp (h, w)
              = free_chunks obj (prev c) (h\<lparr>maybe_empty_object := True\<rparr>, call_freefun w lp)
            \<and> allocated_chunk w obj lp = allocated_chunk w obj (prev c))"
proof (intro conjI impI)
  assume "lp < obj \<and> obj \<le> limit c"
  then have inside: "\<not> outside obj lp c"
    by (auto simp: outside_def)
  with assms show "free_chunks obj lp (h, w) = Inr (lp, h, w)"
    by (subst free_chunks.simps) simp
  from assms inside show "allocated_chunk w obj lp = Some (Inr lp)"
    by (subst allocated_chunk.simps) simp
next
  assume "obj \<le> lp \<or> limit c < obj"
  then have out: "outside obj lp c"
    by (auto simp: outside_def)
  with assms show "free_chunks obj lp (h, w)
      = free_chunks obj (prev c) (h\<lparr>maybe_empty_object := True\<rparr>, call_freefun w lp)"
    by (subst free_chunks.simps) simp
  from assms out show "allocated_chunk w obj lp = allocated_chunk w obj (prev c)"
    by (subst allocated_chunk.simps) simp
qed

theorem containment_rule_witness:
  "free_chunks 0x2000 0x1000 (h_one, w_one) = Inr (0x1000, h_one, w_one)
   \<and> allocated_chunk w_one 0x2000 0x1000 = Some (Inr 0x1000)
   \<and> free_chunks 0x2001 0x1000 (h_one, w_one)
       = free_chunks 0x2001 0 (h_one\<lparr>maybe_empty_object := True\<rparr>, call_freefun w_one 0x1000)"
  using containment_rule [of "0x1000" w_one "\<lparr>limit = 0x2000, prev = 0\<rparr>" "0x2000" h_one]
    containment_rule [of "0x1000" w_one "\<lparr>limit = 0x2000, prev = 0\<rparr>" "0x2001" h_one]
  by (simp add: w_one_def)

section \<open>Allocation failure during migration\<close>

text \<open>
  C6. When the allocator answers null in \<open>_obstack_newchunk\<close>, the failure handler is called
  with the control block exactly as it was on entry (\<open>object_base\<close>, \<open>next_free\<close>, \<open>chunk\<close>,
  \<open>chunk_limit\<close> and every other field), and with the chunk headers and the bytes of the
  memory as they were, no chunk given back: whatever held of the stack before the call holds
  at the moment the handler is entered.
\<close>

theorem alloc_failure_before_any_change:
  "\<exists>w'. U_obstack_newchunk 0 (h, w) len = Inl (Alloc_failed h w')
        \<and> chunks w' = chunks w \<and> mem w' = mem w \<and> released w' = released w"
  by (simp add: U_obstack_newchunk_def call_chunkfun_def Let_def)

section \<open>A pointer that no chunk holds\<close>

text \<open>
  C8. If the chunks of the stack form a chain \<open>cs\<close> and none of them holds the non-null
  pointer \<open>obj\<close>, then \<open>_obstack_free\<close> does not return: it gives every chunk of the chain
  back and calls \<open>abort\<close>. With \<open>chunk_limit\<close> the limit of the current chunk, the macro
  \<open>obstack_free\<close> does the same.
\<close>

theorem foreign_pointer_aborts:
  assumes "chain w (chunk h) cs" and "obj \<noteq> 0" and "\<forall>c\<in>set cs. \<not> holds w obj c"
  shows "(\<exists>h' w'. U_obstack_free (h, w) obj = Inl (Aborted h' w')
            \<and> released w' = released w @ cs)
       \<and> (chunk h \<noteq> 0 \<and> chunk_limit h = limit (the (chunks w (chunk h)))
          \<longrightarrow> obstack_free (h, w) obj = U_obstack_free (h, w) obj)"
proof
  show "\<exists>h' w'. U_obstack_free (h, w) obj = Inl (Aborted h' w') \<and> released w' = released w @ cs"
    using free_chunks_exhausted [OF assms(1,3), of h] assms(2)
    by (simp add: U_obstack_free_def released_foldl_freefun)
next
  show "chunk h \<noteq> 0 \<and> chunk_limit h = limit (the (chunks w (chunk h)))
        \<longrightarrow> obstack_free (h, w) obj = U_obstack_free (h, w) obj"
  proof (cases cs)
    case Nil
    with assms(1) show ?thesis
      by simp
  next
    case (Cons c cs')
    with assms(1,3) have "\<not> holds w obj (chunk h)" and "chunks w (chunk h) \<noteq> None"
      by (auto split: option.splits)
    then show ?thesis
      by (auto simp: obstack_free_def holds_def outside_def split: option.splits)
  qed
qed

theorem foreign_pointer_aborts_witness:
  "(\<exists>h' w'. U_obstack_free (h_one, w_one) 0x5000 = Inl (Aborted h' w')
            \<and> released w' = released w_one @ [0x1000])
   \<and> obstack_free (h_one, w_one) 0x5000 = U_obstack_free (h_one, w_one) 0x5000"
proof -
  have "chain w_one (chunk h_one) [0x1000]" "(0x5000 :: addr) \<noteq> 0"
    "\<forall>c\<in>set [0x1000]. \<not> holds w_one 0x5000 c"
    by (simp_all add: h_one_def w_one_def holds_def outside_def)
  moreover have "chunk h_one \<noteq> 0 \<and> chunk_limit h_one = limit (the (chunks w_one (chunk h_one)))"
    by (simp add: h_one_def w_one_def)
  ultimately show ?thesis
    using foreign_pointer_aborts [of w_one h_one "[0x1000]" "0x5000"] by blast
qed

section \<open>What the formatted append copies\<close>

text \<open>
  An output of at most 1023 bytes fits in \<open>buf\<close> with its null byte: \<open>obstack_printf\<close> and
  \<open>obstack_vprintf\<close> then do what \<open>obstack_grow\<close> does with exactly the bytes of the output,
  and return their number.
\<close>

lemma length_conversions:
  assumes "n < 2 ^ 31"
  shows "scast (of_nat n :: 32 word) = (of_nat n :: 64 word)"
    and "sint (of_nat n :: 32 word) = int n"
    and "unat (of_nat n :: 64 word) = n"
proof -
  have "signed_take_bit 31 (int n) = int n"
    using assms by (intro signed_take_bit_int_eq_self) simp_all
  then show s: "sint (of_nat n :: 32 word) = int n"
    by (simp add: signed_of_nat)
  show "scast (of_nat n :: 32 word) = (of_nat n :: 64 word)"
    by (simp add: scast_eq s)
  have "n < 2 ^ 64"
    using assms by (rule less_trans) simp
  then show "unat (of_nat n :: 64 word) = n"
    by (simp add: unat_of_nat)
qed

lemma printf_output_that_fits:
  assumes fits: "length out < 1024" and buf: "length buf0 = 1024"
  shows "obstack_printf r s buf0 beyond out
           = (case obstack_grow r s out (of_nat (length out)) of
                Inl e \<Rightarrow> Inl e
              | Inr s1 \<Rightarrow> Inr (int (length out), s1))"
    and "obstack_vprintf r s buf0 beyond out
           = (case obstack_grow r s out (of_nat (length out)) of
                Inl e \<Rightarrow> Inl e
              | Inr s1 \<Rightarrow> Inr (int (length out), s1))"
proof -
  from fits have small: "length out < 2 ^ 31"
    by simp
  note conv = length_conversions [OF small]
  have take: "take (length out) ((out @ 0 # drop (Suc (length out)) buf0) @ beyond) = out"
    by simp
  show "obstack_printf r s buf0 beyond out
           = (case obstack_grow r s out (of_nat (length out)) of
                Inl e \<Rightarrow> Inl e
              | Inr s1 \<Rightarrow> Inr (int (length out), s1))"
    using fits buf conv take
    by (auto simp: obstack_printf_def vsnprintf_def obstack_grow_def Let_def min_def
        split: sum.splits prod.splits)
  show "obstack_vprintf r s buf0 beyond out
           = (case obstack_grow r s out (of_nat (length out)) of
                Inl e \<Rightarrow> Inl e
              | Inr s1 \<Rightarrow> Inr (int (length out), s1))"
    using fits buf conv take
    by (auto simp: obstack_vprintf_def vsnprintf_def obstack_grow_def Let_def min_def
        split: sum.splits prod.splits)
qed

text \<open>
  C9, at an output of 2000 bytes (2000 times the letter a), with room for them in the current
  chunk: \<open>obstack_printf\<close> and \<open>obstack_vprintf\<close> return 2000 and make the growing object
  2000 bytes longer, not 1023 or 1024: \<open>len\<close> is passed to \<open>obstack_grow\<close> as it comes from
  \<open>vsnprintf\<close>, so \<open>memcpy\<close> copies the 1023 bytes of the truncated output, the null byte,
  and 976 bytes that lie behind the array \<open>buf\<close> (here \<open>0xEE\<close>), the last of them to offset
  1999 of the object.
\<close>

theorem printf_appends_beyond_the_buffer:
  "obstack_printf r (h_one, w_one) (replicate 1024 0) (replicate 976 0xEE) (replicate 2000 0x61)
     = Inr (2000, h_one\<lparr>next_free := 0x17E0\<rparr>,
            w_one\<lparr>mem := store 0x1010 (replicate 1023 0x61 @ 0 # replicate 976 0xEE) (mem w_one)\<rparr>)
   \<and> obstack_vprintf r (h_one, w_one) (replicate 1024 0) (replicate 976 0xEE) (replicate 2000 0x61)
     = Inr (2000, h_one\<lparr>next_free := 0x17E0\<rparr>,
            w_one\<lparr>mem := store 0x1010 (replicate 1023 0x61 @ 0 # replicate 976 0xEE) (mem w_one)\<rparr>)
   \<and> obstack_object_size (h_one\<lparr>next_free := 0x17E0\<rparr>) = 2000
   \<and> store 0x1010 (replicate 1023 0x61 @ 0 # replicate 976 0xEE) (mem w_one) (0x1010 + 1999) = 0xEE"
proof (intro conjI)
  show "store 0x1010 (replicate 1023 0x61 @ 0 # replicate 976 0xEE) (mem w_one) (0x1010 + 1999)
      = 0xEE"
    by (simp add: store_def nth_append)
qed (simp_all add: obstack_printf_def obstack_vprintf_def vsnprintf_def obstack_grow_def
      obstack_make_room_def obstack_room_def obstack_object_size_def h_one_def)

section \<open>Zero-length growth\<close>

text \<open>
  C10. \<open>obstack_grow (h, where, 0)\<close>, \<open>obstack_blank (h, 0)\<close> and \<open>obstack_make_room (h, 0)\<close>
  return with the control block and the memory as they were, and with no call of the chunk
  allocation function recorded, whatever the room left in the current chunk is: the test
  \<open>obstack_room (h) < 0\<close> is never true of an unsigned size.
\<close>

theorem zero_length_growth_is_noop:
  "obstack_grow r (h, w) src 0 = Inr (h, w)
   \<and> obstack_blank r (h, w) 0 = Inr (h, w)
   \<and> obstack_make_room r (h, w) 0 = Inr (h, w)
   \<and> \<not> obstack_room h < 0"
  by (simp add: obstack_grow_def obstack_blank_def obstack_make_room_def obstack_blank_fast_def
      store_def)

section \<open>Word arithmetic of the alignment\<close>

lemma and_not_eq_diff: "x AND NOT m = x - (x AND m)" for x m :: "'a::len word"
proof -
  have "NOT x AND (x AND m) = 0"
    by (simp flip: and.assoc)
  then have "x - (x AND m) = x AND NOT (x AND m)"
    by (rule disjunctive_diff_eq_and_not)
  also have "\<dots> = x AND NOT m"
    by (auto simp: bit_eq_iff bit_simps)
  finally show ?thesis
    by simp
qed

lemma minus_le_in_range:
  fixes a c l :: "'a::len word"
  assumes "c \<le> l" and "a - c \<le> l - c"
  shows "c \<le> a \<and> a \<le> l"
  using assms by unat_arith

lemma align_bounds:
  fixes p m :: "'a::len word"
  assumes "unat p + unat m < 2 ^ LENGTH('a)"
  shows "unat p \<le> unat ((p + m) AND NOT m)" and "unat ((p + m) AND NOT m) \<le> unat p + unat m"
proof -
  have s: "unat (p + m) = unat p + unat m"
    using assms by (simp add: unat_add_lem)
  have a: "unat ((p + m) AND m) \<le> unat m" "unat ((p + m) AND m) \<le> unat (p + m)"
    using word_and_le1 [of "p + m" m] word_and_le2 [of "p + m" m]
    by (simp_all add: word_le_nat_alt)
  have "unat ((p + m) AND NOT m) = unat (p + m) - unat ((p + m) AND m)"
    using a by (simp add: and_not_eq_diff unat_sub word_le_nat_alt)
  with s a show "unat p \<le> unat ((p + m) AND NOT m)"
      and "unat ((p + m) AND NOT m) \<le> unat p + unat m"
    by simp_all
qed

lemma PTR_ALIGN_eq: "PTR_ALIGN b p m = (p + m) AND NOT m"
  by (simp add: PTR_ALIGN_def BPTR_ALIGN_def)

lemma aligned_start_bounds:
  assumes "unat c + 16 + unat m < 2 ^ 64"
  shows "unat c + 16 \<le> unat (PTR_ALIGN c (contents c) m)"
    and "unat (PTR_ALIGN c (contents c) m) \<le> unat c + 16 + unat m"
proof -
  have c: "unat (contents c) = unat c + 16"
    using assms by (simp add: contents_def unat_add_lem [THEN iffD1])
  with assms have "unat (contents c) + unat m < 2 ^ LENGTH(64)"
    by simp
  from align_bounds [OF this] c
  show "unat c + 16 \<le> unat (PTR_ALIGN c (contents c) m)"
    and "unat (PTR_ALIGN c (contents c) m) \<le> unat c + 16 + unat m"
    by (simp_all add: PTR_ALIGN_eq)
qed

lemma PTR_ALIGN_aligned: "PTR_ALIGN b p m AND m = 0"
  by (simp add: PTR_ALIGN_eq and.assoc)

lemma le_mask_and: "x \<le> mask k \<Longrightarrow> x AND mask k = x" for x :: "'a::len word"
proof (cases "k \<le> LENGTH('a)")
  case True
  assume "x \<le> mask k"
  then have "uint x \<le> uint (mask k :: 'a word)"
    by (simp add: word_le_def)
  also have "\<dots> = mask k"
    using True by (simp add: uint_mask_eq min_def)
  also have "\<dots> < (2 :: int) ^ k"
    by (simp add: mask_eq_exp_minus_1)
  finally show ?thesis
    by (simp add: mask_eq_iff)
next
  case False
  then show ?thesis
    by (auto simp: bit_eq_iff bit_simps dest: bit_imp_le_length)
qed

lemma wrap_pow2:
  fixes p :: "'a::len word"
  assumes "2 ^ LENGTH('a) \<le> unat p + unat (mask k :: 'a word)"
  shows "(p + mask k) AND NOT (mask k) = 0"
proof -
  have "unat (p + mask k) = unat p + unat (mask k :: 'a word) - 2 ^ LENGTH('a)"
    using assms by (simp add: unat_plus_if')
  moreover have "unat p < 2 ^ LENGTH('a)"
    by simp
  ultimately have "unat (p + mask k) < unat (mask k :: 'a word)"
    using assms by linarith
  then have "p + mask k \<le> mask k"
    by (simp add: word_le_nat_alt)
  then have "(p + mask k) AND mask k = p + mask k"
    by (rule le_mask_and)
  then show ?thesis
    by (simp add: and_not_eq_diff)
qed

lemma clamp_on_wrap:
  fixes c l :: "'a::len word"
  assumes "c \<noteq> 0" and "c \<le> l"
  shows "l - c < 0 - c"
proof -
  from assms(1) have pos: "0 < unat c"
    by (simp add: unat_gt_0)
  have l: "unat l < 2 ^ LENGTH('a)"
    by simp
  from assms(2) have "unat (l - c) = unat l - unat c" and le: "unat c \<le> unat l"
    by (simp_all add: unat_sub word_le_nat_alt)
  moreover from pos have "unat (0 - c) = 2 ^ LENGTH('a) - unat c"
    by (subst unat_sub_if_size) (simp add: word_size)
  ultimately show ?thesis
    using l pos unfolding word_less_nat_alt by linarith
qed

section \<open>The ordering of the cursors\<close>

lemma unat_sum2:
  assumes "newchunk_sums_ok h n"
  shows "unat (newchunk_sum2 h n) = unat (next_free h - object_base h) + unat n + unat (alignment_mask h)"
proof -
  from assms have a: "unat (next_free h - object_base h) + unat n < 2 ^ LENGTH(64)"
    and b: "unat (newchunk_sum1 h n) + unat (alignment_mask h) < 2 ^ LENGTH(64)"
    by (simp_all add: sums_ok_iff)
  have "unat (newchunk_sum1 h n) = unat (next_free h - object_base h) + unat n"
    unfolding newchunk_sum1_def using a by (rule unat_add_lem [THEN iffD1])
  moreover have "unat (newchunk_sum2 h n) = unat (newchunk_sum1 h n) + unat (alignment_mask h)"
    unfolding newchunk_sum2_def using b by (rule unat_add_lem [THEN iffD1])
  ultimately show ?thesis
    by simp
qed

lemma newchunk_size_lower:
  assumes ok: "newchunk_sums_ok h n" and small: "unat (newchunk_size h n) < 2 ^ 63"
  shows "unat (next_free h - object_base h) + unat n + unat (alignment_mask h) + 100
           \<le> unat (newchunk_size h n)"
proof -
  define obj where "obj = next_free h - object_base h"
  define s2 where "s2 = newchunk_sum2 h n"
  define n0 where "n0 = s2 + drop_bit 3 obj + 100"
  have d: "unat (drop_bit 3 obj) < 2 ^ 61"
    using unsigned_less [of obj, where ?'a = nat] by (simp add: drop_bit_eq_div unat_div)
  have ge1: "(if n0 < s2 then s2 else n0) \<le> newchunk_size h n"
    by (auto simp add: newchunk_size_def Let_def obj_def s2_def n0_def)
  have "\<not> n0 < s2"
  proof
    assume lt: "n0 < s2"
    then have "2 ^ 64 \<le> unat s2 + unat (drop_bit 3 obj) + 100"
      by (simp add: n0_def headroom_overflow)
    with d have "2 ^ 63 \<le> unat s2"
      by simp
    moreover from ge1 lt have "unat s2 \<le> unat (newchunk_size h n)"
      by (simp add: word_le_nat_alt)
    ultimately show False
      using small by simp
  qed
  then have "unat n0 = unat s2 + unat (drop_bit 3 obj) + 100" and "n0 \<le> newchunk_size h n"
    using ge1 headroom_overflow [of s2 obj] d
    by (simp_all add: n0_def unat_word_ariths not_le)
  then show ?thesis
    using unat_sum2 [OF ok] by (simp add: word_le_nat_alt s2_def obj_def)
qed

lemma newchunk_Inr:
  assumes "U_obstack_newchunk r (h, w) n = Inr (h', w')"
  shows "r \<noteq> 0" and "newchunk_sums_ok h n"
    and "h' = h\<lparr>chunk := r, chunk_limit := r + newchunk_size h n,
                 object_base := PTR_ALIGN r (contents r) (alignment_mask h),
                 next_free := PTR_ALIGN r (contents r) (alignment_mask h)
                                + (next_free h - object_base h),
                 maybe_empty_object := False\<rparr>"
  using assms
  by (auto simp: U_obstack_newchunk_def call_chunkfun_def Let_def
      split: if_splits option.splits)

lemma newchunk_ordering:
  assumes run: "U_obstack_newchunk r (h, w) n = Inr (h', w')"
    and env: "in_range r (newchunk_size h n)"
  shows "ordering h'" and "unat (next_free h') + unat n \<le> unat (chunk_limit h')"
proof -
  define N where "N = newchunk_size h n"
  define m where "m = alignment_mask h"
  define obj where "obj = next_free h - object_base h"
  define ob where "ob = PTR_ALIGN r (contents r) m"
  note facts = newchunk_Inr [OF run]
  from facts(1) env have r: "unat r + unat N < 2 ^ 64" "unat N < 2 ^ 63"
    by (simp_all add: in_range_def N_def)
  from newchunk_size_lower [OF facts(2)] r(2)
  have N: "unat obj + unat n + unat m + 100 \<le> unat N"
    by (simp add: N_def obj_def m_def)
  have lim: "unat (r + N) = unat r + unat N"
    using r(1) by (simp add: unat_add_lem [THEN iffD1])
  from r N have "unat r + 16 + unat m < 2 ^ 64"
    by simp
  from aligned_start_bounds [OF this]
  have ob: "unat r + 16 \<le> unat ob" "unat ob \<le> unat r + 16 + unat m"
    by (simp_all add: ob_def)
  from ob r N have "unat ob + unat obj < 2 ^ LENGTH(64)"
    by simp
  then have nf: "unat (ob + obj) = unat ob + unat obj"
    by (rule unat_add_lem [THEN iffD1])
  have h': "chunk h' = r" "chunk_limit h' = r + N" "object_base h' = ob" "next_free h' = ob + obj"
    by (simp_all add: facts(3) N_def ob_def obj_def m_def)
  show "ordering h'"
    using ob nf lim N by (simp add: ordering_def h' word_le_nat_alt)
  show "unat (next_free h') + unat n \<le> unat (chunk_limit h')"
    using ob nf lim N by (simp add: h')
qed

lemma make_room_ordering:
  assumes run: "obstack_make_room r (h, w) n = Inr (h', w')"
    and env: "in_range r (newchunk_size h n)" and ord: "ordering h"
  shows "ordering h'" and "unat (next_free h') + unat n \<le> unat (chunk_limit h')"
proof -
  show "ordering h'"
    using assms newchunk_ordering(1) [of r h w n h' w']
    by (auto simp: obstack_make_room_def split: if_splits)
  show "unat (next_free h') + unat n \<le> unat (chunk_limit h')"
  proof (cases "obstack_room h < n")
    case True
    with assms newchunk_ordering(2) [of r h w n h' w'] show ?thesis
      by (simp add: obstack_make_room_def)
  next
    case False
    with run have "h' = h"
      by (simp add: obstack_make_room_def)
    moreover from ord have "unat (chunk_limit h - next_free h) = unat (chunk_limit h) - unat (next_free h)"
      and "unat (next_free h) \<le> unat (chunk_limit h)"
      by (simp_all add: ordering_def unat_sub word_le_nat_alt)
    ultimately show ?thesis
      using False by (simp add: obstack_room_def word_less_nat_alt)
  qed
qed

lemma ordering_advance:
  assumes "ordering h" and "unat (next_free h) + unat n \<le> unat (chunk_limit h)"
  shows "ordering (h\<lparr>next_free := next_free h + n\<rparr>)"
proof -
  have "unat (chunk_limit h) < 2 ^ LENGTH(64)"
    by (rule unsigned_less)
  with assms(2) have "unat (next_free h) + unat n < 2 ^ LENGTH(64)"
    by linarith
  then have "unat (next_free h + n) = unat (next_free h) + unat n"
    by (rule unat_add_lem [THEN iffD1])
  with assms show ?thesis
    by (simp add: ordering_def word_le_nat_alt)
qed

lemma grow_op_ordering:
  assumes run: "grow_op r g (h, w) = Inr (h', w')"
    and env: "in_range r (newchunk_size h (demand g))" and ord: "ordering h"
  shows "ordering h'"
proof (cases g)
  case (Newchunk n)
  with assms newchunk_ordering(1) [of r h w n h' w'] show ?thesis
    by simp
next
  case (Make_room n)
  with assms make_room_ordering(1) [of r h w n h' w'] show ?thesis
    by simp
next
  case (Blank n)
  with run obtain h1 w1 where 1: "obstack_make_room r (h, w) n = Inr (h1, w1)"
      and 2: "h' = h1\<lparr>next_free := next_free h1 + n\<rparr>"
    by (auto simp: obstack_blank_def obstack_blank_fast_def split: sum.splits)
  from make_room_ordering [OF 1] env ord Blank show ?thesis
    unfolding 2 by (intro ordering_advance) simp_all
next
  case (Grow1 b)
  with run obtain h1 w1 where 1: "obstack_make_room r (h, w) 1 = Inr (h1, w1)"
      and 2: "h' = h1\<lparr>next_free := next_free h1 + 1\<rparr>"
    by (auto simp: obstack_1grow_def obstack_1grow_fast_def split: sum.splits)
  from make_room_ordering [OF 1] env ord Grow1 show ?thesis
    unfolding 2 by (intro ordering_advance) simp_all
next
  case (Ptr_grow rep)
  with run obtain h1 w1 where 1: "obstack_make_room r (h, w) 8 = Inr (h1, w1)"
      and 2: "h' = h1\<lparr>next_free := next_free h1 + 8\<rparr>"
    by (auto simp: obstack_ptr_grow_def obstack_ptr_grow_fast_def split: sum.splits)
  from make_room_ordering [OF 1] env ord Ptr_grow show ?thesis
    unfolding 2 by (intro ordering_advance) simp_all
next
  case (Int_grow rep)
  with run obtain h1 w1 where 1: "obstack_make_room r (h, w) 4 = Inr (h1, w1)"
      and 2: "h' = h1\<lparr>next_free := next_free h1 + 4\<rparr>"
    by (auto simp: obstack_int_grow_def obstack_int_grow_fast_def split: sum.splits)
  from make_room_ordering [OF 1] env ord Int_grow show ?thesis
    unfolding 2 by (intro ordering_advance) simp_all
next
  case (Grow bs n)
  with run obtain h1 w1 where 1: "obstack_make_room r (h, w) n = Inr (h1, w1)"
      and 2: "h' = h1\<lparr>next_free := next_free h1 + n\<rparr>"
    by (auto simp: obstack_grow_def split: sum.splits if_splits)
  from make_room_ordering [OF 1] env ord Grow show ?thesis
    unfolding 2 by (intro ordering_advance) simp_all
next
  case (Grow0 bs n)
  with run obtain h1 w1 where 1: "obstack_make_room r (h, w) (n + 1) = Inr (h1, w1)"
      and 2: "h' = h1\<lparr>next_free := next_free h1 + (n + 1)\<rparr>"
    by (auto simp: obstack_grow0_def obstack_1grow_fast_def add.assoc split: sum.splits if_splits)
  from make_room_ordering [OF 1] env ord Grow0 show ?thesis
    unfolding 2 by (intro ordering_advance) simp_all
qed

lemma finish_fields:
  "obstack_finish (h, w) = (p, (h', w')) \<Longrightarrow>
     p = object_base h \<and> w' = w \<and> chunk h' = chunk h \<and> chunk_limit h' = chunk_limit h
     \<and> alignment_mask h' = alignment_mask h \<and> chunk_size h' = chunk_size h
     \<and> object_base h' = next_free h'
     \<and> next_free h' =
          (if PTR_ALIGN (object_base h) (next_free h) (alignment_mask h) - chunk h
                > chunk_limit h - chunk h
           then chunk_limit h
           else PTR_ALIGN (object_base h) (next_free h) (alignment_mask h))
     \<and> maybe_empty_object h' = (maybe_empty_object h \<or> next_free h = object_base h)"
  by (auto simp: obstack_finish_def Let_def split: if_splits)

lemma finish_ordering:
  assumes run: "obstack_finish (h, w) = (p, (h', w'))" and ord: "ordering h"
  shows "ordering h'"
proof -
  note f = finish_fields [OF run]
  from ord have cl: "chunk h \<le> chunk_limit h"
    by (auto simp: ordering_def)
  have "chunk h \<le> next_free h' \<and> next_free h' \<le> chunk_limit h"
  proof (cases "PTR_ALIGN (object_base h) (next_free h) (alignment_mask h) - chunk h
                  > chunk_limit h - chunk h")
    case True
    with f cl show ?thesis
      by simp
  next
    case False
    then have "PTR_ALIGN (object_base h) (next_free h) (alignment_mask h) - chunk h
                 \<le> chunk_limit h - chunk h"
      by simp
    from minus_le_in_range [OF cl this] f False show ?thesis
      by simp
  qed
  with f show ?thesis
    by (simp add: ordering_def)
qed

lemma free_chunks_result:
  "free_chunks obj lp (h, w) = Inr (lp', h', w') \<Longrightarrow>
     (lp' \<noteq> 0 \<longrightarrow> holds w' obj lp')
     \<and> (h' = h \<or> h' = h\<lparr>maybe_empty_object := True\<rparr>)"
proof (induction obj lp "(h, w)" arbitrary: h w rule: free_chunks.induct)
  case (1 obj lp h w)
  show ?case
  proof (cases "lp = 0")
    case True
    with "1.prems" show ?thesis
      by (subst (asm) free_chunks.simps) simp
  next
    case False
    with "1.prems" obtain c where c: "chunks w lp = Some c"
      by (subst (asm) free_chunks.simps) (auto split: option.splits)
    show ?thesis
    proof (cases "outside obj lp c")
      case True
      with "1.prems" False c
      have "free_chunks obj (prev c) (h\<lparr>maybe_empty_object := True\<rparr>, call_freefun w lp)
              = Inr (lp', h', w')"
        by (subst (asm) free_chunks.simps) simp
      from "1.hyps" [OF False c True this] show ?thesis
        by auto
    next
      case out: False
      with "1.prems" False c show ?thesis
        by (subst (asm) free_chunks.simps) (simp add: holds_def)
    qed
  qed
qed

lemma U_obstack_free_Inr:
  assumes "U_obstack_free (h, w) obj = Inr (h', w')"
  shows "(\<exists>c. chunks w' (chunk h') = Some c \<and> chunk h' < obj \<and> obj \<le> limit c
              \<and> chunk_limit h' = limit c \<and> object_base h' = obj \<and> next_free h' = obj)
         \<or> (obj = 0 \<and> (h' = h \<or> h' = h\<lparr>maybe_empty_object := True\<rparr>))"
proof -
  from assms obtain lp h1 where fc: "free_chunks obj (chunk h) (h, w) = Inr (lp, h1, w')"
    by (auto simp: U_obstack_free_def split: sum.splits if_splits option.splits)
  note res = free_chunks_result [OF fc]
  show ?thesis
  proof (cases "lp = 0")
    case True
    with assms fc res show ?thesis
      by (auto simp: U_obstack_free_def split: if_splits)
  next
    case False
    with res obtain c where "chunks w' lp = Some c" "\<not> outside obj lp c"
      by (auto simp: holds_def split: option.splits)
    with assms fc False show ?thesis
      by (auto simp: U_obstack_free_def outside_def not_le not_less)
  qed
qed

lemma free_fn_ordering:
  assumes run: "U_obstack_free (h, w) obj = Inr (h', w')" and ord: "ordering h"
  shows "ordering h'"
  using U_obstack_free_Inr [OF run] ord by (auto simp: ordering_def)

lemma free_ordering:
  assumes run: "obstack_free (h, w) obj = Inr (h', w')" and ord: "ordering h"
  shows "ordering h'"
proof (cases "obj > chunk h \<and> obj < chunk_limit h")
  case True
  with run have "h' = h\<lparr>object_base := obj, next_free := obj\<rparr>"
    by (auto simp: obstack_free_def)
  with True show ?thesis
    by (auto simp: ordering_def)
next
  case False
  with run have "U_obstack_free (h, w) obj = Inr (h', w')"
    by (auto simp: obstack_free_def)
  then show ?thesis
    using ord by (rule free_fn_ordering)
qed

lemma begin_worker_Inr:
  assumes "U_obstack_begin_worker r (h, w) size0 alignment0 = Inr (h', w')"
  shows "r \<noteq> 0" and "chunk h' = r"
    and "object_base h' = PTR_ALIGN r (contents r) (alignment_mask h')"
    and "next_free h' = object_base h'"
    and "chunk_limit h' = r + chunk_size h'"
    and "\<not> maybe_empty_object h'"
    and "alignment_mask h' = (if alignment0 = 0 then DEFAULT_ALIGNMENT else alignment0) - 1"
    and "chunks w' = (chunks w)(r \<mapsto> \<lparr>limit = r + chunk_size h', prev = 0\<rparr>)"
    and "released w' = released w" and "mem w' = mem w"
  using assms
  by (auto simp: U_obstack_begin_worker_def call_chunkfun_def Let_def split: if_splits)

lemma begin_worker_ordering:
  assumes run: "U_obstack_begin_worker r (h, w) size0 alignment0 = Inr (h', w')"
    and big: "16 + unat (alignment_mask h') \<le> unat (chunk_size h')"
    and env: "in_range r (chunk_size h')"
  shows "ordering h'"
proof -
  note b = begin_worker_Inr [OF run]
  from b(1) env have r: "unat r + unat (chunk_size h') < 2 ^ 64"
    by (simp add: in_range_def)
  then have lim: "unat (r + chunk_size h') = unat r + unat (chunk_size h')"
    by (simp add: unat_add_lem [THEN iffD1])
  from r big have "unat r + 16 + unat (alignment_mask h') < 2 ^ 64"
    by simp
  from aligned_start_bounds [OF this] lim big b show ?thesis
    by (simp add: ordering_def word_le_nat_alt)
qed

lemma resting_ordering: "resting s \<Longrightarrow> ordering (fst s)"
proof (induction rule: resting.induct)
  case (resting_begin r s0 size0 alignment0 h w)
  then show ?case
    using begin_worker_ordering [of r _ _ size0 alignment0 h w]
    by (cases s0) (simp add: U_obstack_begin_def)
next
  case (resting_begin_1 r s0 size0 alignment0 h w)
  then show ?case
    using begin_worker_ordering [of r _ _ size0 alignment0 h w]
    by (cases s0) (simp add: U_obstack_begin_1_def)
next
  case (resting_grow s r g s')
  then show ?case
    using grow_op_ordering [of r g "fst s" "snd s" "fst s'" "snd s'"] by simp
next
  case (resting_finish s p s')
  then show ?case
    using finish_ordering [of "fst s" "snd s" p "fst s'" "snd s'"] by simp
next
  case (resting_free s obj s')
  then show ?case
    using free_ordering [of "fst s" "snd s" obj "fst s'" "snd s'"] by simp
next
  case (resting_free_fn s obj s')
  then show ?case
    using free_fn_ordering [of "fst s" "snd s" obj "fst s'" "snd s'"] by simp
qed

lemma finish_monotone:
  assumes run: "obstack_finish (h, w) = (p, (h', w'))" and ord: "ordering h"
    and nz: "chunk h \<noteq> 0" and pow2: "alignment_mask h = mask k"
  shows "next_free h \<le> next_free h'"
proof -
  note f = finish_fields [OF run]
  define a where "a = PTR_ALIGN (object_base h) (next_free h) (alignment_mask h)"
  from ord have cl: "chunk h \<le> chunk_limit h" and nl: "next_free h \<le> chunk_limit h"
    by (auto simp: ordering_def)
  show ?thesis
  proof (cases "chunk_limit h - chunk h < a - chunk h")
    case True
    with f nl show ?thesis
      by (simp add: a_def)
  next
    case False
    have "unat (next_free h) + unat (alignment_mask h) < 2 ^ LENGTH(64)"
    proof (rule ccontr)
      assume "\<not> ?thesis"
      then have "a = 0"
        using wrap_pow2 [of "next_free h" k] by (simp add: a_def PTR_ALIGN_eq pow2)
      with clamp_on_wrap [OF nz cl] False show False
        by (simp del: diff_0)
    qed
    from align_bounds(1) [OF this] have "next_free h \<le> a"
      by (simp add: a_def PTR_ALIGN_eq word_le_nat_alt)
    with f False show ?thesis
      by (simp add: a_def)
  qed
qed

text \<open>
  C7, as the claim states it, fails after initialization: with chunk size 20 and alignment 32,
  the allocator answering \<open>0x1000\<close>, \<open>_obstack_begin\<close> returns with \<open>object_base\<close> and
  \<open>next_free\<close> at \<open>0x1020\<close>, the next multiple of 32 after the header, and \<open>chunk_limit\<close> at
  \<open>0x1014\<close>: \<open>next_free\<close> is above \<open>chunk_limit\<close>.
\<close>

theorem small_first_chunk_breaks_ordering:
  "U_obstack_begin 0x1000 (h_blank, w_blank) 20 32 = Inr (h_tiny, w_tiny)
   \<and> object_base h_tiny = 0x1020 \<and> next_free h_tiny = 0x1020 \<and> chunk_limit h_tiny = 0x1014
   \<and> \<not> next_free h_tiny \<le> chunk_limit h_tiny"
  by (simp add: U_obstack_begin_def U_obstack_begin_worker_def call_chunkfun_def h_blank_def
      w_blank_def PTR_ALIGN_def BPTR_ALIGN_def contents_def Let_def h_tiny_def w_tiny_def)

text \<open>
  C7, amended. \<open>object_base \<le> next_free \<le> chunk_limit\<close> holds after an initialization
  whose chunk size is at least 16 plus the alignment mask, and then after every public
  operation that returns (\<open>_obstack_newchunk\<close>, \<open>obstack_make_room\<close>, \<open>obstack_blank\<close>,
  \<open>obstack_1grow\<close>, \<open>obstack_ptr_grow\<close>, \<open>obstack_int_grow\<close>, \<open>obstack_grow\<close>, \<open>obstack_grow0\<close>,
  \<open>obstack_finish\<close>, \<open>obstack_free\<close> with any pointer, hence also \<open>obstack_alloc\<close>,
  \<open>obstack_copy\<close> and \<open>obstack_copy0\<close>), provided that the allocator answers each request with
  null or with a block that does not wrap around the address space and is smaller than
  \<open>2^63\<close> bytes.
\<close>

theorem ordering_of_resting_states:
  "resting (h, w) \<Longrightarrow> object_base h \<le> next_free h \<and> next_free h \<le> chunk_limit h"
  using resting_ordering [of "(h, w)"] by (simp add: ordering_def)

lemma resting_full: "resting (h_full, w_small)"
proof -
  have "16 + unat (alignment_mask h_small) \<le> unat (chunk_size h_small)"
    "in_range 0x1000 (chunk_size h_small)"
    by (simp_all add: h_small_def in_range_def)
  with begin_small have "resting (h_small, w_small)"
    by (rule resting_begin)
  then have "resting (h_small\<lparr>next_free := 0x102A\<rparr>, w_small)"
    using blank_small by (rule resting_grow) (simp add: in_range_def)
  then show ?thesis
    using finish_small by (rule resting_finish)
qed

theorem ordering_of_resting_states_witness:
  "resting (h_full, w_small)
   \<and> object_base h_full \<le> next_free h_full \<and> next_free h_full \<le> chunk_limit h_full"
  using ordering_of_resting_states [OF resting_full] resting_full by simp

section \<open>Lists of objects and chains\<close>

lemma in_dropWhile_self: "x \<in> set xs \<Longrightarrow> x \<in> set (dropWhile (\<lambda>y. y \<noteq> x) xs)"
  by (induction xs) auto

lemma dropWhile_fresh: "c \<noteq> r \<Longrightarrow> dropWhile (\<lambda>x. x \<noteq> c) (r # cs) = dropWhile (\<lambda>x. x \<noteq> c) cs"
  by simp

lemma dropWhile_prefix:
  "c \<notin> set pre \<Longrightarrow> dropWhile (\<lambda>x. x \<noteq> c) (pre @ cs) = dropWhile (\<lambda>x. x \<noteq> c) cs"
  by (induction pre) auto

lemma placed_chunks: "placed cs os \<Longrightarrow> ob \<in> set os \<Longrightarrow> snd ob \<in> set cs"
  by (induction cs os rule: placed.induct) auto

lemma placed_append: "placed cs (xs @ ys) \<Longrightarrow> placed cs ys"
  by (induction xs) auto

lemma placed_prefix:
  "placed (pre @ cs) os \<Longrightarrow> \<forall>ob\<in>set os. snd ob \<in> set cs \<Longrightarrow> distinct (pre @ cs) \<Longrightarrow> placed cs os"
proof (induction os)
  case Nil
  then show ?case by simp
next
  case (Cons ob os)
  obtain p c where ob: "ob = (p, c)"
    by (cases ob)
  from Cons.prems ob have c: "c \<in> set cs" "c \<notin> set pre"
    by auto
  from Cons show ?case
    by (simp add: ob dropWhile_prefix [OF c(2)])
qed

lemma placed_extend:
  "placed cs os \<Longrightarrow> \<forall>ob\<in>set os. snd ob \<notin> set pre \<Longrightarrow> placed (pre @ cs) os"
proof (induction os)
  case Nil
  then show ?case by simp
next
  case (Cons ob os)
  obtain p c where ob: "ob = (p, c)"
    by (cases ob)
  from Cons.prems ob have c: "c \<notin> set pre"
    by auto
  from Cons show ?case
    by (simp add: ob dropWhile_prefix [OF c])
qed

lemma sorted_objs_append: "sorted_objs cur me (xs @ ys) \<Longrightarrow> sorted_objs cur me ys"
  by (induction xs) auto

lemma sorted_objs_True: "sorted_objs cur me os \<Longrightarrow> sorted_objs cur' True os"
  by (induction cur me os rule: sorted_objs.induct) auto

lemma sorted_objs_mono: "sorted_objs cur me os \<Longrightarrow> (me \<longrightarrow> me') \<Longrightarrow> sorted_objs cur me' os"
  by (induction cur me os rule: sorted_objs.induct) auto

lemma sorted_objs_other_top:
  "sorted_objs cur me os \<Longrightarrow> \<forall>ob\<in>set os. snd ob \<noteq> cur' \<Longrightarrow> sorted_objs cur' me' os"
  by (induction cur me os rule: sorted_objs.induct) auto

lemma chain_cong:
  "\<forall>c\<in>set cs. chunks w' c = chunks w c \<Longrightarrow> chain w' lp cs = chain w lp cs"
  by (induction cs arbitrary: lp) (auto split: option.splits)

lemma chain_distinct: "chain w lp cs \<Longrightarrow> distinct cs"
  by (induction cs arbitrary: lp) (auto split: option.splits)

lemma chain_nonzero: "chain w lp cs \<Longrightarrow> 0 \<notin> set cs"
  by (induction cs arbitrary: lp) (auto split: option.splits)

lemma chain_headers: "chain w lp cs \<Longrightarrow> c \<in> set cs \<Longrightarrow> chunks w c \<noteq> None"
  by (induction cs arbitrary: lp) (auto split: option.splits)

lemma chain_hd: "chain w lp cs \<Longrightarrow> lp \<noteq> 0 \<Longrightarrow> \<exists>cs'. cs = lp # cs'"
  by (cases cs) auto

lemma chain_suffix: "chain w lp (pre @ c # post) \<Longrightarrow> chain w c (c # post)"
proof (induction pre arbitrary: lp)
  case Nil
  then show ?case by simp
next
  case (Cons a pre)
  from Cons.prems obtain ch :: obstack_chunk where "chain w (prev ch) (pre @ c # post)"
    by (auto split: option.splits)
  then show ?case
    by (rule Cons.IH)
qed

section \<open>The invariant holds in every tracked state\<close>

lemma inv_pair:
  "inv (h, w) live cs \<longleftrightarrow>
        chain w (chunk h) cs \<and> chunk h \<noteq> 0
        \<and> chunk_limit h = lim w (chunk h)
        \<and> (\<exists>k. alignment_mask h = mask k)
        \<and> ordering h
        \<and> (\<forall>c\<in>set cs. chunk_ok h w c)
        \<and> disjoint_chunks w cs
        \<and> object_ok h w (object_base h, chunk h)
        \<and> (\<forall>ob\<in>set live. object_ok h w ob)
        \<and> placed cs ((object_base h, chunk h) # live)
        \<and> sorted_objs (chunk h) (maybe_empty_object h) ((object_base h, chunk h) # live)"
  by (simp add: inv_def)

lemma inv_finish:
  assumes inv: "inv (h, w) live cs" and run: "obstack_finish (h, w) = (p, (h', w'))"
  shows "inv (h', w') ((p, chunk h) # live) cs"
proof -
  from finish_fields [OF run]
  have p: "p = object_base h" and w': "w' = w" and ch: "chunk h' = chunk h"
    and cl: "chunk_limit h' = chunk_limit h" and am: "alignment_mask h' = alignment_mask h"
    and base': "object_base h' = next_free h'"
    and nf': "next_free h' = chunk_limit h \<or>
              next_free h' = PTR_ALIGN (object_base h) (next_free h) (alignment_mask h)"
    and me': "maybe_empty_object h' = (maybe_empty_object h \<or> next_free h = object_base h)"
    by (simp_all split: if_splits)
  from inv have chain: "chain w (chunk h) cs" and nz: "chunk h \<noteq> 0"
    and lim: "chunk_limit h = lim w (chunk h)"
    and ord: "ordering h"
    and cok: "\<forall>c\<in>set cs. chunk_ok h w c"
    and dis: "disjoint_chunks w cs"
    and ok0: "object_ok h w (object_base h, chunk h)"
    and ok: "\<forall>ob\<in>set live. object_ok h w ob"
    and pl: "placed cs ((object_base h, chunk h) # live)"
    and so: "sorted_objs (chunk h) (maybe_empty_object h) ((object_base h, chunk h) # live)"
    by (simp_all add: inv_pair)
  from inv obtain k where k: "alignment_mask h = mask k"
    unfolding inv_pair by blast
  have ord': "ordering h'"
    using finish_ordering [OF run ord] .
  have mono: "next_free h \<le> next_free h'"
    using finish_monotone [OF run ord nz k] .
  from ord have on: "object_base h \<le> next_free h"
    by (simp add: ordering_def)
  have ok_old: "object_ok h' w (object_base h, chunk h)" "\<forall>ob\<in>set live. object_ok h' w ob"
    using ok0 ok by (simp_all add: object_ok_def am)
  have ok_new: "object_ok h' w (object_base h', chunk h)"
  proof -
    from ok0 have "PTR_ALIGN (chunk h) (contents (chunk h)) (alignment_mask h) \<le> object_base h"
      by (simp add: object_ok_def)
    with on mono have 1: "PTR_ALIGN (chunk h) (contents (chunk h)) (alignment_mask h) \<le> next_free h'"
      by simp
    from ord' have 2: "next_free h' \<le> lim w (chunk h)"
      by (simp add: ordering_def cl lim)
    from nf' have 3: "next_free h' AND alignment_mask h = 0 \<or> next_free h' = lim w (chunk h)"
      by (auto simp: PTR_ALIGN_aligned lim)
    from 1 2 3 show ?thesis
      by (simp add: object_ok_def base' am)
  qed
  have pl': "placed cs ((object_base h', chunk h) # (object_base h, chunk h) # live)"
    using pl by (simp add: in_dropWhile_self)
  have so': "sorted_objs (chunk h) (maybe_empty_object h')
              ((object_base h', chunk h) # (object_base h, chunk h) # live)"
  proof -
    have tail: "sorted_objs (chunk h) (maybe_empty_object h') ((object_base h, chunk h) # live)"
      using so by (rule sorted_objs_mono) (simp add: me')
    have hd1: "object_base h \<le> object_base h'
        \<and> (object_base h = object_base h' \<longrightarrow> maybe_empty_object h')"
      using on mono by (auto simp: base' me')
    have hd2: "\<forall>ob\<in>set live. snd ob = chunk h \<longrightarrow>
        fst ob \<le> object_base h' \<and> (fst ob = object_base h' \<longrightarrow> maybe_empty_object h')"
    proof (intro ballI impI)
      fix ob assume "ob \<in> set live" "snd ob = chunk h"
      with so have a: "fst ob \<le> object_base h"
        and b: "fst ob = object_base h \<longrightarrow> maybe_empty_object h"
        by auto
      from a on mono base' have "fst ob \<le> object_base h'"
        by simp
      moreover have "fst ob = object_base h' \<longrightarrow> maybe_empty_object h'"
        using a b hd1 by (auto simp: me')
      ultimately show "fst ob \<le> object_base h'
          \<and> (fst ob = object_base h' \<longrightarrow> maybe_empty_object h')"
        by simp
    qed
    from tail hd1 hd2 show ?thesis
      by simp
  qed
  have cok': "\<forall>c\<in>set cs. chunk_ok h' w c"
    using cok by (simp add: chunk_ok_def am)
  have pow2': "\<exists>k. alignment_mask h' = mask k"
    using k am by auto
  show ?thesis
    unfolding inv_pair w' p ch
    using chain nz lim pow2' ord' cok' dis ok_old ok_new pl' so'
    by (simp add: cl)
qed

lemma lim_cong: "chunks w' c = chunks w c \<Longrightarrow> lim w' c = lim w c"
  by (simp add: lim_def)

lemma newchunk_world:
  assumes run: "U_obstack_newchunk r (h, w) n = Inr (h', w')" and fresh: "r \<noteq> chunk h"
  shows "if \<not> maybe_empty_object h
            \<and> object_base h = PTR_ALIGN (chunk h) (contents (chunk h)) (alignment_mask h)
         then \<exists>oc. chunks w (chunk h) = Some oc
                \<and> chunks w' = ((chunks w)(r \<mapsto> \<lparr>limit = r + newchunk_size h n, prev = prev oc\<rparr>))
                                 (chunk h := None)
                \<and> released w' = released w @ [chunk h]
         else chunks w' = (chunks w)(r \<mapsto> \<lparr>limit = r + newchunk_size h n, prev = chunk h\<rparr>)
              \<and> released w' = released w"
  using assms
  by (auto simp: U_obstack_newchunk_def call_chunkfun_def call_freefun_def Let_def
      split: if_splits option.splits)

lemma inv_newchunk:
  assumes inv: "inv (h, w) live cs" and run: "U_obstack_newchunk r (h, w) n = Inr (h', w')"
    and env: "granted w r (newchunk_size h n)"
  shows "\<exists>cs'. inv (h', w') live cs'"
proof -
  define N where "N = newchunk_size h n"
  define m where "m = alignment_mask h"
  define old where "old = chunk h"
  from inv have chain: "chain w old cs" and nz: "old \<noteq> 0"
    and ord: "ordering h"
    and cok: "\<forall>c\<in>set cs. chunk_ok h w c"
    and dis: "disjoint_chunks w cs"
    and ok0: "object_ok h w (object_base h, old)"
    and ok: "\<forall>ob\<in>set live. object_ok h w ob"
    and pl: "placed cs ((object_base h, old) # live)"
    and so: "sorted_objs old (maybe_empty_object h) ((object_base h, old) # live)"
    and pow2: "\<exists>k. alignment_mask h = mask k"
    by (simp_all add: inv_pair old_def)
  from chain_hd [OF chain nz] obtain rest where cs: "cs = old # rest"
    by blast
  note dist = chain_distinct [OF chain]
  note facts = newchunk_Inr [OF run]
  have h': "chunk h' = r" "chunk_limit h' = r + N" "alignment_mask h' = m"
    "object_base h' = PTR_ALIGN r (contents r) m" "\<not> maybe_empty_object h'"
    by (simp_all add: facts(3) N_def m_def)
  from env facts(1) have range: "unat r + unat N < 2 ^ 64" "unat N < 2 ^ 63"
    and apart: "\<And>c ch. chunks w c = Some ch \<Longrightarrow>
                  unat r + unat N \<le> unat c \<or> unat (limit ch) \<le> unat r"
    by (auto simp: granted_def N_def)
  from range facts(1) have inr: "in_range r (newchunk_size h n)"
    by (simp add: in_range_def N_def)
  have ord': "ordering h'"
    using newchunk_ordering(1) [OF run inr] .
  from newchunk_size_lower [OF facts(2)] range(2)
  have N: "unat m + 100 \<le> unat N"
    by (simp add: N_def m_def)
  have limN: "unat (r + N) = unat r + unat N"
    using range(1) by (simp add: unat_add_lem [THEN iffD1])
  have A: "c \<noteq> r \<and> (unat r + unat N \<le> unat c \<or> unat (lim w c) \<le> unat r)" if "c \<in> set cs" for c
  proof -
    from chain_headers [OF chain that] obtain ch where ch: "chunks w c = Some ch"
      by auto
    from cok that have "unat c + 16 + unat m \<le> unat (lim w c)"
      by (simp add: chunk_ok_def m_def)
    with apart [OF ch] ch N show ?thesis
      by (auto simp: lim_def)
  qed
  then have fresh: "r \<noteq> old" "r \<notin> set cs"
    using cs by auto
  define recycle where "recycle \<longleftrightarrow> \<not> maybe_empty_object h
     \<and> object_base h = PTR_ALIGN old (contents old) m"
  define rest' where "rest' = (if recycle then rest else cs)"
  have sub: "set rest' \<subseteq> set cs" and dist': "distinct rest'"
    using cs dist by (auto simp: rest'_def)
  obtain P where hdr: "chunks w' r = Some \<lparr>limit = r + N, prev = P\<rparr>"
    and P: "chain w P rest'"
    and same: "\<forall>c\<in>set rest'. chunks w' c = chunks w c"
  proof (cases recycle)
    case True
    with newchunk_world [OF run] fresh obtain oc where oc: "chunks w old = Some oc"
      and w': "chunks w' = ((chunks w)(r \<mapsto> \<lparr>limit = r + N, prev = prev oc\<rparr>))(old := None)"
      by (auto simp: recycle_def old_def m_def N_def)
    from chain cs oc have "chain w (prev oc) rest" and "old \<notin> set rest"
      by auto
    with True w' fresh cs show ?thesis
      by (intro that [of "prev oc"]) (auto simp: rest'_def)
  next
    case False
    with newchunk_world [OF run] fresh
    have w': "chunks w' = (chunks w)(r \<mapsto> \<lparr>limit = r + N, prev = old\<rparr>)"
      by (auto simp: recycle_def old_def m_def N_def)
    with False chain fresh show ?thesis
      by (intro that [of old]) (auto simp: rest'_def)
  qed
  have limr: "lim w' r = r + N"
    using hdr by (simp add: lim_def)
  have lims: "lim w' c = lim w c" if "c \<in> set rest'" for c
    using same that by (intro lim_cong) simp
  have live_in: "snd ob \<in> set rest'" if "ob \<in> set live" for ob
  proof -
    from placed_chunks [of cs "(object_base h, old) # live" ob] pl that
    have in_cs: "snd ob \<in> set cs"
      by simp
    show ?thesis
    proof (cases recycle)
      case False
      with in_cs show ?thesis
        by (simp add: rest'_def)
    next
      case True
      have "snd ob \<noteq> old"
      proof
        assume eq: "snd ob = old"
        with so that have "fst ob \<le> object_base h"
          and e: "fst ob = object_base h \<longrightarrow> maybe_empty_object h"
          by auto
        moreover from ok that eq have "PTR_ALIGN old (contents old) m \<le> fst ob"
          by (cases ob) (auto simp: object_ok_def m_def)
        ultimately show False
          using True by (auto simp: recycle_def)
      qed
      with in_cs True cs show ?thesis
        by (auto simp: rest'_def)
    qed
  qed
  have chain': "chain w' r (r # rest')"
    using hdr P same facts(1) fresh sub by (auto simp: chain_cong [of rest' w' w])
  have cok': "\<forall>c\<in>set (r # rest'). chunk_ok h' w' c"
    using cok sub N limN lims limr by (auto simp: chunk_ok_def h' m_def)
  have dis': "disjoint_chunks w' (r # rest')"
    unfolding disjoint_chunks_def
  proof (intro ballI impI)
    fix c1 c2 assume c: "c1 \<in> set (r # rest')" "c2 \<in> set (r # rest')" "c1 \<noteq> c2"
    show "unat (lim w' c1) \<le> unat c2 \<or> unat (lim w' c2) \<le> unat c1"
    proof (cases "c1 = r")
      case True
      with c have "c2 \<in> set rest'"
        by auto
      with A [of c2] sub True limr limN lims [of c2] show ?thesis
        by auto
    next
      case c1: False
      show ?thesis
      proof (cases "c2 = r")
        case True
        with c c1 have "c1 \<in> set rest'"
          by auto
        with A [of c1] sub True limr limN lims [of c1] show ?thesis
          by auto
      next
        case False
        with c c1 have "c1 \<in> set rest'" "c2 \<in> set rest'"
          by auto
        with dis sub c(3) lims show ?thesis
          by (auto simp: disjoint_chunks_def)
      qed
    qed
  qed
  have ok_new: "object_ok h' w' (object_base h', r)"
    using ord' by (auto simp: object_ok_def h' limr ordering_def PTR_ALIGN_aligned)
  have ok': "\<forall>ob\<in>set live. object_ok h' w' ob"
  proof
    fix ob assume ob: "ob \<in> set live"
    from lims [OF live_in [OF ob]] ok ob show "object_ok h' w' ob"
      by (cases ob) (auto simp: object_ok_def h' m_def)
  qed
  have not_r: "\<forall>ob\<in>set live. snd ob \<notin> set [r]"
    using live_in sub fresh by auto
  have pl_live: "placed rest' live"
  proof (cases recycle)
    case True
    then have r': "rest' = rest"
      by (simp add: rest'_def)
    from pl have 1: "placed ([old] @ rest) live"
      by (simp add: cs)
    have 2: "\<forall>ob\<in>set live. snd ob \<in> set rest"
      using live_in r' by simp
    have 3: "distinct ([old] @ rest)"
      using dist cs by simp
    show ?thesis
      unfolding r' using 1 2 3 by (rule placed_prefix)
  next
    case False
    with pl show ?thesis
      by (simp add: rest'_def)
  qed
  have pl': "placed (r # rest') ((object_base h', r) # live)"
    using placed_extend [OF pl_live not_r] live_in by auto
  have so': "sorted_objs r False ((object_base h', r) # live)"
  proof -
    from so have "sorted_objs old (maybe_empty_object h) live"
      by simp
    then have "sorted_objs r False live"
      by (rule sorted_objs_other_top) (use not_r in auto)
    with not_r show ?thesis
      by auto
  qed
  have pow2': "\<exists>k. alignment_mask h' = mask k"
    using pow2 by (simp add: h' m_def)
  have "inv (h', w') live (r # rest')"
    unfolding inv_pair
    using chain' facts(1) limr pow2' ord' cok' dis' ok_new ok' pl' so'
    by (simp add: h')
  then show ?thesis ..
qed

lemma after_free_split:
  assumes "(p, c) \<in> set live"
  obtains xs c0 os where "live = xs @ (p, c0) # os" and "after_free p live = os"
proof -
  from assms have "\<exists>xs c0 os. live = xs @ (p, c0) # os \<and> after_free p live = os"
  proof (induction live)
    case Nil
    then show ?case by simp
  next
    case (Cons ob live)
    show ?case
    proof (cases "fst ob = p")
      case True
      then have "ob # live = [] @ (p, snd ob) # live" "after_free p (ob # live) = live"
        by (cases ob; simp add: after_free_def)+
      then show ?thesis
        by blast
    next
      case False
      with Cons.prems have "(p, c) \<in> set live"
        by auto
      from Cons.IH [OF this] obtain xs c0 os where "live = xs @ (p, c0) # os"
          "after_free p live = os"
        by blast
      with False have "ob # live = (ob # xs) @ (p, c0) # os" "after_free p (ob # live) = os"
        by (cases ob; simp add: after_free_def)+
      then show ?thesis
        by blast
    qed
  qed
  with that show thesis
    by blast
qed

lemma live_object_held:
  assumes inv: "inv (h, w) live cs" and p: "(p, c) \<in> set live"
  shows "c \<in> set cs" and "holds w p c" and "\<And>c'. c' \<in> set cs \<Longrightarrow> holds w p c' \<Longrightarrow> c' = c"
proof -
  from inv have chain: "chain w (chunk h) cs"
    and cok: "\<forall>c\<in>set cs. chunk_ok h w c"
    and dis: "disjoint_chunks w cs"
    and ok: "\<forall>ob\<in>set live. object_ok h w ob"
    and pl: "placed cs ((object_base h, chunk h) # live)"
    by (simp_all add: inv_pair)
  from placed_chunks [of cs "(object_base h, chunk h) # live" "(p, c)"] pl p
  show c: "c \<in> set cs"
    by simp
  from chain_headers [OF chain c] obtain ch where ch: "chunks w c = Some ch"
    by auto
  from cok c have room: "unat c + 16 + unat (alignment_mask h) \<le> unat (lim w c)"
    by (simp add: chunk_ok_def)
  have "unat (lim w c) < 2 ^ 64"
    using unsigned_less [of "lim w c", where ?'a = nat] by simp
  with room have "unat c + 16 + unat (alignment_mask h) < 2 ^ 64"
    by simp
  from aligned_start_bounds(1) [OF this] ok p
  have bounds: "unat c < unat p" "unat p \<le> unat (lim w c)"
    by (auto simp: object_ok_def word_le_nat_alt)
  with ch show "holds w p c"
    by (simp add: holds_def outside_def lim_def word_le_nat_alt word_less_nat_alt not_le not_less)
  show "c' = c" if c': "c' \<in> set cs" and hold: "holds w p c'" for c'
  proof (rule ccontr)
    assume ne: "c' \<noteq> c"
    from hold have "unat c' < unat p" "unat p \<le> unat (lim w c')"
      by (auto simp: holds_def outside_def lim_def word_le_nat_alt word_less_nat_alt
          split: option.splits)
    moreover from dis c c' ne have "unat (lim w c') \<le> unat c \<or> unat (lim w c) \<le> unat c'"
      by (auto simp: disjoint_chunks_def)
    ultimately show False
      using bounds by auto
  qed
qed

lemma free_live:
  assumes inv: "inv (h, w) live cs" and p: "(p, c) \<in> set live"
  obtains pre post where "cs = pre @ c # post"
    and "obstack_free (h, w) p
           = Inr ((if pre = [] then h else h\<lparr>maybe_empty_object := True\<rparr>)
                    \<lparr>object_base := p, next_free := p, chunk_limit := lim w c, chunk := c\<rparr>,
                  foldl call_freefun w pre)"
    and "U_obstack_free (h, w) p = obstack_free (h, w) p"
proof -
  from inv have chain: "chain w (chunk h) cs" and nz: "chunk h \<noteq> 0"
    and lim: "chunk_limit h = lim w (chunk h)"
    by (simp_all add: inv_pair)
  note held = live_object_held [OF inv p]
  from chain_hd [OF chain nz] obtain rest where cs: "cs = chunk h # rest"
    by blast
  note dist = chain_distinct [OF chain]
  from held(1) obtain pre post where split: "cs = pre @ c # post"
    by (auto dest: split_list)
  with dist have notin: "c \<notin> set pre"
    by auto
  have pre: "\<forall>x\<in>set pre. \<not> holds w p x"
    using held(3) split notin by auto
  from chain_headers [OF chain held(1)] obtain ch where ch: "chunks w c = Some ch"
    by auto
  from chain_headers [OF chain, of "chunk h"] cs obtain ch0 where ch0: "chunks w (chunk h) = Some ch0"
    by auto
  have walk: "free_chunks p (chunk h) (h, w)
      = Inr (c, (if pre = [] then h else h\<lparr>maybe_empty_object := True\<rparr>), foldl call_freefun w pre)"
    using chain pre held(2) unfolding split by (rule free_chunks_found)
  have kept: "chunks (foldl call_freefun w pre) c = Some ch"
    using notin ch by (simp add: chunks_foldl_freefun)
  have c0: "c \<noteq> 0"
    using chain_nonzero [OF chain] held(1) by auto
  have slow: "U_obstack_free (h, w) p
      = Inr ((if pre = [] then h else h\<lparr>maybe_empty_object := True\<rparr>)
                    \<lparr>object_base := p, next_free := p, chunk_limit := lim w c, chunk := c\<rparr>,
                  foldl call_freefun w pre)"
    using walk kept c0 ch by (simp add: U_obstack_free_def lim_def)
  show thesis
  proof (cases "p > chunk h \<and> p < chunk_limit h")
    case False
    with slow have "obstack_free (h, w) p
      = Inr ((if pre = [] then h else h\<lparr>maybe_empty_object := True\<rparr>)
                    \<lparr>object_base := p, next_free := p, chunk_limit := lim w c, chunk := c\<rparr>,
                  foldl call_freefun w pre)"
      by (auto simp: obstack_free_def)
    with split show ?thesis
      using slow by (intro that) simp_all
  next
    case True
    with ch0 lim have "holds w p (chunk h)"
      by (auto simp: holds_def outside_def lim_def)
    with held(3) [of "chunk h"] cs have eq: "chunk h = c"
      by simp
    with split cs dist have "pre = []"
      by (cases pre) auto
    with True eq lim have "obstack_free (h, w) p
      = Inr ((if pre = [] then h else h\<lparr>maybe_empty_object := True\<rparr>)
                    \<lparr>object_base := p, next_free := p, chunk_limit := lim w c, chunk := c\<rparr>,
                  foldl call_freefun w pre)"
      by (simp add: obstack_free_def)
    with split show ?thesis
      using slow by (intro that) simp_all
  qed
qed

lemma inv_free:
  assumes inv: "inv (h, w) live cs" and p: "(p, c) \<in> set live"
    and split: "cs = pre @ c # post"
  shows "inv ((if pre = [] then h else h\<lparr>maybe_empty_object := True\<rparr>)
                    \<lparr>object_base := p, next_free := p, chunk_limit := lim w c, chunk := c\<rparr>,
              foldl call_freefun w pre) (after_free p live) (c # post)"
proof -
  define h' where "h' = (if pre = [] then h else h\<lparr>maybe_empty_object := True\<rparr>)
                    \<lparr>object_base := p, next_free := p, chunk_limit := lim w c, chunk := c\<rparr>"
  define w' where "w' = foldl call_freefun w pre"
  from inv have chain: "chain w (chunk h) cs" and nz: "chunk h \<noteq> 0"
    and cok: "\<forall>c\<in>set cs. chunk_ok h w c"
    and dis: "disjoint_chunks w cs"
    and ok: "\<forall>ob\<in>set live. object_ok h w ob"
    and pl: "placed cs ((object_base h, chunk h) # live)"
    and so: "sorted_objs (chunk h) (maybe_empty_object h) ((object_base h, chunk h) # live)"
    and pow2: "\<exists>k. alignment_mask h = mask k"
    by (simp_all add: inv_pair)
  note held = live_object_held [OF inv p]
  note dist = chain_distinct [OF chain]
  from chain_hd [OF chain nz] obtain rest where cs: "cs = chunk h # rest"
    by blast
  from after_free_split [OF p] obtain xs c0 os where live: "live = xs @ (p, c0) # os"
    and os: "after_free p live = os"
    by blast
  have "(p, c0) \<in> set live"
    by (simp add: live)
  note held0 = live_object_held [OF inv this]
  have c0: "c0 = c"
    using held0(1) held0(2) by (rule held(3))
  have h': "chunk h' = c" "chunk_limit h' = lim w c" "object_base h' = p" "next_free h' = p"
    "alignment_mask h' = alignment_mask h"
    "maybe_empty_object h' = (if pre = [] then maybe_empty_object h else True)"
    by (simp_all add: h'_def)
  have same: "chunks w' x = chunks w x" if "x \<in> set (c # post)" for x
    using that dist split by (auto simp: w'_def chunks_foldl_freefun)
  then have lims: "lim w' x = lim w x" if "x \<in> set (c # post)" for x
    using that by (intro lim_cong) simp
  have sub: "set (c # post) \<subseteq> set cs"
    by (auto simp: split)
  have chain': "chain w' c (c # post)"
  proof -
    from chain have "chain w c (c # post)"
      unfolding split by (rule chain_suffix)
    moreover have "chain w' c (c # post) = chain w c (c # post)"
      by (rule chain_cong) (use same in blast)
    ultimately show ?thesis
      by simp
  qed
  have cnz: "c \<noteq> 0"
    using chain_nonzero [OF chain] held(1) by auto
  from held(2) have bounds: "c < p" "p \<le> lim w c"
    by (auto simp: holds_def outside_def lim_def split: option.splits)
  have ord': "ordering h'"
    using bounds by (auto simp: ordering_def h')
  have cok': "\<forall>x\<in>set (c # post). chunk_ok h' w' x"
    using cok sub lims by (auto simp: chunk_ok_def h')
  have dis': "disjoint_chunks w' (c # post)"
    unfolding disjoint_chunks_def
  proof (intro ballI impI)
    fix c1 c2 assume c: "c1 \<in> set (c # post)" "c2 \<in> set (c # post)" "c1 \<noteq> c2"
    with dis sub have "unat (lim w c1) \<le> unat c2 \<or> unat (lim w c2) \<le> unat c1"
      unfolding disjoint_chunks_def by blast
    with c lims show "unat (lim w' c1) \<le> unat c2 \<or> unat (lim w' c2) \<le> unat c1"
      by simp
  qed
  from pl have pl_suffix: "placed cs ((p, c) # os)"
    using placed_append [of cs "(object_base h, chunk h) # xs" "(p, c) # os"]
    by (simp add: live c0)
  have drop: "dropWhile (\<lambda>x. x \<noteq> c) cs = c # post"
    using dist unfolding split by (subst dropWhile_prefix) auto
  from pl_suffix drop have os_in: "\<forall>ob\<in>set os. snd ob \<in> set (c # post)"
    by simp
  have ok_p: "object_ok h' w' (p, c)"
    using ok p lims [of c] by (auto simp: object_ok_def h')
  have ok': "\<forall>ob\<in>set os. object_ok h' w' ob"
  proof
    fix ob assume ob: "ob \<in> set os"
    then have "ob \<in> set live"
      by (simp add: live)
    with ok have "object_ok h w ob"
      by blast
    with lims [of "snd ob"] os_in ob show "object_ok h' w' ob"
      by (cases ob) (auto simp: object_ok_def h')
  qed
  have pl': "placed (c # post) ((p, c) # os)"
  proof -
    have "placed (c # post) os"
    proof (rule placed_prefix [of pre])
      from pl_suffix show "placed (pre @ c # post) os"
        by (simp add: split)
      from os_in show "\<forall>ob\<in>set os. snd ob \<in> set (c # post)" .
      from dist show "distinct (pre @ c # post)"
        by (simp add: split)
    qed
    with os_in show ?thesis
      by simp
  qed
  have so': "sorted_objs c (maybe_empty_object h') ((p, c) # os)"
  proof -
    from so have suffix: "sorted_objs (chunk h) (maybe_empty_object h) ((p, c) # os)"
      using sorted_objs_append [of "chunk h" "maybe_empty_object h"
          "(object_base h, chunk h) # xs" "(p, c) # os"]
      by (simp add: live c0)
    show ?thesis
    proof (cases "pre = []")
      case True
      with split cs have "chunk h = c"
        by simp
      with suffix True show ?thesis
        by (simp add: h')
    next
      case False
      then have "maybe_empty_object h' = True"
        by (simp add: h')
      with suffix show ?thesis
        by (simp only:) (rule sorted_objs_True)
    qed
  qed
  have pow2': "\<exists>k. alignment_mask h' = mask k"
    using pow2 by (simp add: h')
  have "inv (h', w') os (c # post)"
    unfolding inv_pair
    using chain' cnz lims [of c] pow2' ord' cok' dis' ok_p ok' pl' so'
    by (simp add: h')
  then show ?thesis
    by (simp add: h'_def w'_def os)
qed

lemma inv_begin_worker:
  assumes run: "U_obstack_begin_worker r (h, w) size0 alignment0 = Inr (h', w')"
    and big: "16 + unat (alignment_mask h') \<le> unat (chunk_size h')"
    and pow2: "alignment_mask h' = mask k"
    and env: "in_range r (chunk_size h')"
  shows "inv (h', w') [] [r]"
proof -
  note b = begin_worker_Inr [OF run]
  have ord: "ordering h'"
    using run big env by (rule begin_worker_ordering)
  from b(1) env have "unat r + unat (chunk_size h') < 2 ^ 64"
    by (simp add: in_range_def)
  then have limN: "unat (r + chunk_size h') = unat r + unat (chunk_size h')"
    by (simp add: unat_add_lem [THEN iffD1])
  have limr: "lim w' r = r + chunk_size h'"
    by (simp add: lim_def b)
  have "object_ok h' w' (object_base h', r)"
    using ord b(2,3,5) by (auto simp: object_ok_def limr ordering_def PTR_ALIGN_aligned)
  moreover have "chunk_ok h' w' r"
    using big limN by (simp add: chunk_ok_def limr)
  moreover have "\<exists>k. alignment_mask h' = mask k"
    using pow2 by blast
  ultimately show ?thesis
    unfolding inv_pair using ord b(1,2,5) limr
    by (simp add: disjoint_chunks_def b(8))
qed

lemma inv_cong:
  assumes inv: "inv (h, w) live cs" and "ordering h'" and "chunks w' = chunks w"
    and "chunk h' = chunk h" and "chunk_limit h' = chunk_limit h"
    and "alignment_mask h' = alignment_mask h" and "object_base h' = object_base h"
    and "maybe_empty_object h' = maybe_empty_object h"
  shows "inv (h', w') live cs"
proof -
  have lims: "lim w' = lim w"
    using assms(3) by (simp add: lim_def fun_eq_iff)
  have chain: "chain w' lp cs = chain w lp cs" for lp
    by (rule chain_cong) (simp add: assms(3))
  from inv assms(2,4-) show ?thesis
    unfolding inv_pair
    by (simp add: lims chain chunk_ok_def object_ok_def disjoint_chunks_def)
qed

lemma grow_op_split:
  assumes "grow_op r g (h, w) = Inr (h', w')"
  obtains h1 w1 where
    "U_obstack_newchunk r (h, w) (demand g) = Inr (h1, w1) \<or> (h1, w1) = (h, w)"
    and "chunks w' = chunks w1" and "chunk h' = chunk h1" and "chunk_limit h' = chunk_limit h1"
    and "alignment_mask h' = alignment_mask h1" and "object_base h' = object_base h1"
    and "maybe_empty_object h' = maybe_empty_object h1"
proof (cases g)
  case (Newchunk n)
  with assms show ?thesis
    by (intro that [of h' w']) simp_all
next
  case (Make_room n)
  with assms show ?thesis
    by (intro that [of h' w']) (auto simp: obstack_make_room_def split: if_splits)
next
  case (Blank n)
  with assms obtain h1 w1 where 1: "obstack_make_room r (h, w) n = Inr (h1, w1)"
      and 2: "h' = h1\<lparr>next_free := next_free h1 + n\<rparr>" "w' = w1"
    by (auto simp: obstack_blank_def obstack_blank_fast_def split: sum.splits)
  with Blank show ?thesis
    by (intro that [of h1 w1]) (auto simp: obstack_make_room_def split: if_splits)
next
  case (Grow1 b)
  with assms obtain h1 w1 where 1: "obstack_make_room r (h, w) 1 = Inr (h1, w1)"
      and 2: "h' = h1\<lparr>next_free := next_free h1 + 1\<rparr>" "chunks w' = chunks w1"
    by (auto simp: obstack_1grow_def obstack_1grow_fast_def split: sum.splits)
  with Grow1 show ?thesis
    by (intro that [of h1 w1]) (auto simp: obstack_make_room_def split: if_splits)
next
  case (Ptr_grow rep)
  with assms obtain h1 w1 where 1: "obstack_make_room r (h, w) 8 = Inr (h1, w1)"
      and 2: "h' = h1\<lparr>next_free := next_free h1 + 8\<rparr>" "chunks w' = chunks w1"
    by (auto simp: obstack_ptr_grow_def obstack_ptr_grow_fast_def split: sum.splits)
  with Ptr_grow show ?thesis
    by (intro that [of h1 w1]) (auto simp: obstack_make_room_def split: if_splits)
next
  case (Int_grow rep)
  with assms obtain h1 w1 where 1: "obstack_make_room r (h, w) 4 = Inr (h1, w1)"
      and 2: "h' = h1\<lparr>next_free := next_free h1 + 4\<rparr>" "chunks w' = chunks w1"
    by (auto simp: obstack_int_grow_def obstack_int_grow_fast_def split: sum.splits)
  with Int_grow show ?thesis
    by (intro that [of h1 w1]) (auto simp: obstack_make_room_def split: if_splits)
next
  case (Grow bs n)
  with assms obtain h1 w1 where 1: "obstack_make_room r (h, w) n = Inr (h1, w1)"
      and 2: "h' = h1\<lparr>next_free := next_free h1 + n\<rparr>" "chunks w' = chunks w1"
    by (auto simp: obstack_grow_def split: sum.splits if_splits)
  with Grow show ?thesis
    by (intro that [of h1 w1]) (auto simp: obstack_make_room_def split: if_splits)
next
  case (Grow0 bs n)
  with assms obtain h1 w1 where 1: "obstack_make_room r (h, w) (n + 1) = Inr (h1, w1)"
      and 2: "h' = h1\<lparr>next_free := next_free h1 + n + 1\<rparr>" "chunks w' = chunks w1"
    by (auto simp: obstack_grow0_def obstack_1grow_fast_def split: sum.splits if_splits)
  with Grow0 show ?thesis
    by (intro that [of h1 w1]) (auto simp: obstack_make_room_def split: if_splits)
qed

lemma granted_in_range: "granted w r n \<Longrightarrow> in_range r n"
  by (auto simp: granted_def in_range_def)

lemma inv_grow_op:
  assumes inv: "inv (h, w) live cs" and run: "grow_op r g (h, w) = Inr (h', w')"
    and env: "granted w r (newchunk_size h (demand g))"
  shows "\<exists>cs'. inv (h', w') live cs'"
proof -
  from inv have ord: "ordering h"
    by (simp add: inv_pair)
  have ord': "ordering h'"
    using run granted_in_range [OF env] ord by (rule grow_op_ordering)
  from grow_op_split [OF run] obtain h1 w1 where
    1: "U_obstack_newchunk r (h, w) (demand g) = Inr (h1, w1) \<or> (h1, w1) = (h, w)"
    and 2: "chunks w' = chunks w1" "chunk h' = chunk h1" "chunk_limit h' = chunk_limit h1"
      "alignment_mask h' = alignment_mask h1" "object_base h' = object_base h1"
      "maybe_empty_object h' = maybe_empty_object h1"
    by blast
  from 1 obtain cs1 where "inv (h1, w1) live cs1"
    using inv inv_newchunk [OF inv _ env] by auto
  from this ord' 2 have "inv (h', w') live cs1"
    by (rule inv_cong)
  then show ?thesis ..
qed

lemma tracked_inv: "tracked s live \<Longrightarrow> \<exists>cs. inv s live cs"
proof (induction rule: tracked.induct)
  case (tracked_begin r s0 size0 alignment0 h w k)
  then have "inv (h, w) [] [r]"
    using inv_begin_worker [of r _ _ size0 alignment0 h w k]
    by (cases s0) (simp add: U_obstack_begin_def)
  then show ?case ..
next
  case (tracked_begin_1 r s0 size0 alignment0 h w k)
  then have "inv (h, w) [] [r]"
    using inv_begin_worker [of r _ _ size0 alignment0 h w k]
    by (cases s0) (simp add: U_obstack_begin_1_def)
  then show ?case ..
next
  case (tracked_grow s live r g s')
  then show ?case
    using inv_grow_op [of "fst s" "snd s" live _ r g "fst s'" "snd s'"] by auto
next
  case (tracked_finish s live p s')
  then show ?case
    using inv_finish [of "fst s" "snd s" live _ p "fst s'" "snd s'"] by auto
next
  case (tracked_free s live p c s')
  then obtain cs where inv: "inv (fst s, snd s) live cs"
    by auto
  from free_live [OF inv tracked_free.hyps(2)] obtain pre post where split: "cs = pre @ c # post"
    and run: "obstack_free (fst s, snd s) p
           = Inr ((if pre = [] then fst s else (fst s)\<lparr>maybe_empty_object := True\<rparr>)
                    \<lparr>object_base := p, next_free := p, chunk_limit := lim (snd s) c, chunk := c\<rparr>,
                  foldl call_freefun (snd s) pre)"
    by blast
  from inv_free [OF inv tracked_free.hyps(2) split] run tracked_free.hyps(3)
  have "inv s' (after_free p live) (c # post)"
    by simp
  then show ?case ..
next
  case (tracked_free_fn s live p c s')
  then obtain cs where inv: "inv (fst s, snd s) live cs"
    by auto
  from free_live [OF inv tracked_free_fn.hyps(2)] obtain pre post where split: "cs = pre @ c # post"
    and run: "obstack_free (fst s, snd s) p
           = Inr ((if pre = [] then fst s else (fst s)\<lparr>maybe_empty_object := True\<rparr>)
                    \<lparr>object_base := p, next_free := p, chunk_limit := lim (snd s) c, chunk := c\<rparr>,
                  foldl call_freefun (snd s) pre)"
    and same: "U_obstack_free (fst s, snd s) p = obstack_free (fst s, snd s) p"
    by blast
  from inv_free [OF inv tracked_free_fn.hyps(2) split] run same tracked_free_fn.hyps(3)
  have "inv s' (after_free p live) (c # post)"
    by simp
  then show ?case ..
qed

lemma tracked_resting: "tracked s live \<Longrightarrow> resting s"
proof (induction rule: tracked.induct)
  case (tracked_begin r s0 size0 alignment0 h w k)
  then show ?case by (intro resting_begin)
next
  case (tracked_begin_1 r s0 size0 alignment0 h w k)
  then show ?case by (intro resting_begin_1)
next
  case (tracked_grow s live r g s')
  then show ?case by (intro resting_grow [of s r g s'] granted_in_range)
next
  case (tracked_finish s live p s')
  then show ?case by (intro resting_finish [of s p s'])
next
  case (tracked_free s live p c s')
  then show ?case by (intro resting_free [of s p s'])
next
  case (tracked_free_fn s live p c s')
  then show ?case by (intro resting_free_fn [of s p s'])
qed

section \<open>The composite operations\<close>

text \<open>
  \<open>obstack_alloc\<close>, \<open>obstack_copy\<close> and \<open>obstack_copy0\<close> are two steps of a tracked run: the
  address they return is that of a new live object.
\<close>

lemma tracked_composite:
  assumes "tracked s live"
  shows "obstack_alloc r s n = Inr (p, s') \<Longrightarrow>
           granted (snd s) r (newchunk_size (fst s) n) \<Longrightarrow> \<exists>c. tracked s' ((p, c) # live)"
    and "obstack_copy r s bs n = Inr (p, s') \<Longrightarrow>
           granted (snd s) r (newchunk_size (fst s) n) \<Longrightarrow> \<exists>c. tracked s' ((p, c) # live)"
    and "obstack_copy0 r s bs n = Inr (p, s') \<Longrightarrow>
           granted (snd s) r (newchunk_size (fst s) (n + 1)) \<Longrightarrow>
           \<exists>c. tracked s' ((p, c) # live)"
proof -
  have step: "\<exists>c. tracked s' ((p, c) # live)"
    if "grow_op r g s = Inr s1" and "obstack_finish s1 = (p, s')"
      and "granted (snd s) r (newchunk_size (fst s) (demand g))" for g s1
  proof -
    from assms that(1,3) have "tracked s1 live"
      by (rule tracked_grow)
    from tracked_finish [OF this that(2)] show ?thesis ..
  qed
  show "obstack_alloc r s n = Inr (p, s') \<Longrightarrow>
           granted (snd s) r (newchunk_size (fst s) n) \<Longrightarrow> \<exists>c. tracked s' ((p, c) # live)"
    using step [of "Blank n"] by (auto simp: obstack_alloc_def split: sum.splits)
  show "obstack_copy r s bs n = Inr (p, s') \<Longrightarrow>
           granted (snd s) r (newchunk_size (fst s) n) \<Longrightarrow> \<exists>c. tracked s' ((p, c) # live)"
    using step [of "Grow bs n"] by (auto simp: obstack_copy_def split: sum.splits)
  show "obstack_copy0 r s bs n = Inr (p, s') \<Longrightarrow>
           granted (snd s) r (newchunk_size (fst s) (n + 1)) \<Longrightarrow>
           \<exists>c. tracked s' ((p, c) # live)"
    using step [of "Grow0 bs n"] by (auto simp: obstack_copy0_def split: sum.splits)
qed

section \<open>Alignment of finished objects\<close>

lemma unat_mask_plus1:
  assumes "k < 64"
  shows "unat (mask k :: addr) + 1 = 2 ^ k"
proof -
  have "uint (mask k :: addr) = mask (min LENGTH(64) k)"
    by (rule uint_mask_eq)
  also have "min LENGTH(64) k = k"
    using assms by simp
  finally have "uint (mask k :: addr) = 2 ^ k - 1"
    by (simp only: mask_eq_exp_minus_1)
  then have "int (unat (mask k :: addr)) = 2 ^ k - 1"
    by (simp only: uint_nat [symmetric])
  then have "int (unat (mask k :: addr) + 1) = int (2 ^ k)"
    by simp
  then show ?thesis
    by (simp only: of_nat_eq_iff)
qed

lemma aligned_dvd:
  fixes p :: addr
  assumes "p AND mask k = 0"
  shows "(unat (mask k :: addr) + 1) dvd unat p"
proof (cases "k < 64")
  case True
  from assms have "2 ^ k dvd unat p"
    by (simp only: and_mask_dvd_nat)
  then show ?thesis
    by (simp only: unat_mask_plus1 [OF True])
next
  case False
  then have "mask k = (- 1 :: addr)"
    by (auto simp: bit_eq_iff bit_simps dest: bit_imp_le_length)
  with assms show ?thesis
    by simp
qed

text \<open>
  C3. Objects are meant to start on multiples of the alignment: \<open>alignment_mask\<close> is the
  "mask specifying low bits that should be clear in address of an object", \<open>_obstack_begin\<close>
  and \<open>_obstack_newchunk\<close> align \<open>object_base\<close>, and \<open>obstack_finish\<close> aligns \<open>next_free\<close>
  for the next object. But \<open>obstack_finish\<close> then clamps \<open>next_free\<close> to \<open>chunk_limit\<close>, which
  is the chunk's address plus its size and need not be aligned, and the alignment is lost.
  With chunk size 46 and alignment 16 the first chunk ends at \<open>0x102E\<close>. After an object of
  26 bytes, \<open>obstack_finish\<close> clamps \<open>next_free\<close> to that limit, and the next
  \<open>obstack_finish\<close> returns \<open>0x102E\<close>, which is no multiple of 16.
\<close>

theorem finish_returns_unaligned_limit:
  "U_obstack_begin 0x1000 (h_blank, w_blank) 46 16 = Inr (h_small, w_small)
   \<and> obstack_alloc 0 (h_small, w_small) 26 = Inr (0x1010, (h_full, w_small))
   \<and> obstack_finish (h_full, w_small) = (0x102E, (h_full\<lparr>maybe_empty_object := True\<rparr>, w_small))
   \<and> unat (alignment_mask h_full) + 1 = 16
   \<and> \<not> 16 dvd unat (0x102E :: addr)"
  using begin_small alloc_small finish_full by (simp add: h_full_def h_small_def)

text \<open>
  The defect shows in that case only: in every tracked state the address that
  \<open>obstack_finish\<close> returns is a multiple of the alignment (\<open>alignment_mask + 1\<close>), or it is
  the limit of the current chunk and the object finished has length 0.
\<close>

lemma finish_returns_aligned_or_limit:
  assumes "tracked (h, w) live" and "obstack_finish (h, w) = (p, s')"
  shows "(unat (alignment_mask h) + 1) dvd unat p
         \<or> (p = chunk_limit h \<and> obstack_object_size h = 0)"
proof -
  from tracked_inv [OF assms(1)] obtain cs where inv: "inv (h, w) live cs"
    by blast
  then obtain k where k: "alignment_mask h = mask k"
    unfolding inv_pair by blast
  from inv have ok: "object_ok h w (object_base h, chunk h)" and ord: "ordering h"
    and lim: "chunk_limit h = lim w (chunk h)"
    by (simp_all add: inv_pair)
  from assms(2) have p: "p = object_base h"
    by (cases s') (simp add: finish_fields)
  from ok have "p AND mask k = 0 \<or> p = chunk_limit h"
    by (simp add: object_ok_def p k lim)
  then show ?thesis
  proof
    assume "p AND mask k = 0"
    then show ?thesis
      using aligned_dvd [of p k] by (simp add: k)
  next
    assume "p = chunk_limit h"
    with ord p have "next_free h = object_base h"
      by (auto simp: ordering_def)
    with \<open>p = chunk_limit h\<close> show ?thesis
      by (simp add: obstack_object_size_def)
  qed
qed

lemma finish_at_limit_example:
  "tracked (h_full, w_small) [(0x1010, 0x1000)]
   \<and> obstack_finish (h_full, w_small) = (0x102E, (h_full\<lparr>maybe_empty_object := True\<rparr>, w_small))
   \<and> ((unat (alignment_mask h_full) + 1) dvd unat (0x102E :: addr)
        \<or> (0x102E = chunk_limit h_full \<and> obstack_object_size h_full = 0))"
  using finish_returns_aligned_or_limit [OF tracked_full finish_full] tracked_full finish_full by simp

section \<open>Bulk free of a live object\<close>

text \<open>
  C1, as the claim states it, fails: chunks are where the allocator puts them, so an object
  finished later can be at a lower address. In the state \<open>h_lo\<close> the object at \<open>0x2010\<close> was
  finished first, in the chunk at \<open>0x2000\<close>, and the object at \<open>0x1010\<close> after it, in the
  newer chunk at \<open>0x1000\<close>. \<open>obstack_free\<close> of \<open>0x2010\<close> gives the chunk at \<open>0x1000\<close> back
  to the allocator: the object at the lower address \<open>0x1010\<close> is in no chunk of the stack any
  more.
\<close>

theorem lower_address_in_newer_chunk_is_released:
  "U_obstack_begin 0x2000 (h_blank, w_blank) 64 16 = Inr (h_hi, w_hi)
   \<and> obstack_alloc 0 (h_hi, w_hi) 8
       = Inr (0x2010, (h_hi\<lparr>object_base := 0x2020, next_free := 0x2020\<rparr>, w_hi))
   \<and> obstack_alloc 0x1000 (h_hi\<lparr>object_base := 0x2020, next_free := 0x2020\<rparr>, w_hi) 100
       = Inr (0x1010, (h_lo, w_lo))
   \<and> (0x1010 :: addr) < 0x2010
   \<and> obstack_free (h_lo, w_lo) 0x2010
       = Inr (h_hi\<lparr>maybe_empty_object := True\<rparr>,
            w_lo\<lparr>chunks := [0x2000 \<mapsto> \<lparr>limit = 0x2040, prev = 0\<rparr>], released := [0x1000]\<rparr>)
   \<and> U_obstack_allocated_p
         (h_hi\<lparr>maybe_empty_object := True\<rparr>,
          w_lo\<lparr>chunks := [0x2000 \<mapsto> \<lparr>limit = 0x2040, prev = 0\<rparr>], released := [0x1000]\<rparr>)
         0x1010 = Some (Inr False)"
  using begin_hi alloc_hi alloc_lo free_hi
  by (simp add: U_obstack_allocated_p_def allocated_chunk.simps outside_def h_hi_def)

text \<open>
  C1, amended. In every tracked state, for every live object \<open>p\<close> with its chunk \<open>c\<close>,
  \<open>obstack_free\<close> of \<open>p\<close> returns; afterwards \<open>object_base\<close> and \<open>next_free\<close> are \<open>p\<close>,
  \<open>chunk\<close> is \<open>c\<close>, which holds \<open>p\<close>, and \<open>chunk_limit\<close> is the limit of \<open>c\<close>. The chunks
  \<open>pre\<close> newer than \<open>c\<close>, none of which holds \<open>p\<close>, have been given back in this order and
  are held no more; \<open>c\<close> and the older chunks \<open>post\<close> keep their headers and no byte of the
  memory has changed. Every object finished before \<open>p\<close> and still live is in \<open>c\<close> or an older
  chunk, in \<open>c\<close> at an address that is not above \<open>p\<close>, and the state is tracked again with
  these objects.
\<close>

theorem bulk_free_of_live_object:
  assumes "tracked (h, w) live" and "(p, c) \<in> set live"
  shows "\<exists>h' w' pre post ch.
     obstack_free (h, w) p = Inr (h', w') \<and> U_obstack_free (h, w) p = Inr (h', w')
     \<and> object_base h' = p \<and> next_free h' = p
     \<and> chunk h' = c \<and> chunks w c = Some ch \<and> c < p \<and> p \<le> limit ch
     \<and> chunk_limit h' = limit ch
     \<and> chain w (chunk h) (pre @ c # post) \<and> (\<forall>x\<in>set (pre @ post). \<not> holds w p x)
     \<and> released w' = released w @ pre \<and> (\<forall>x\<in>set pre. chunks w' x = None)
     \<and> mem w' = mem w
     \<and> (\<forall>x\<in>set (c # post). chunks w' x = chunks w x)
     \<and> (\<forall>ob\<in>set (after_free p live).
           snd ob \<in> set (c # post) \<and> (snd ob = c \<longrightarrow> fst ob \<le> p))
     \<and> tracked (h', w') (after_free p live)"
proof -
  from tracked_inv [OF assms(1)] obtain cs where inv: "inv (h, w) live cs"
    by blast
  from free_live [OF inv assms(2)] obtain pre post where split: "cs = pre @ c # post"
    and run: "obstack_free (h, w) p
           = Inr ((if pre = [] then h else h\<lparr>maybe_empty_object := True\<rparr>)
                    \<lparr>object_base := p, next_free := p, chunk_limit := lim w c, chunk := c\<rparr>,
                  foldl call_freefun w pre)"
    and same: "U_obstack_free (h, w) p = obstack_free (h, w) p"
    by blast
  define h' where "h' = (if pre = [] then h else h\<lparr>maybe_empty_object := True\<rparr>)
                    \<lparr>object_base := p, next_free := p, chunk_limit := lim w c, chunk := c\<rparr>"
  define w' where "w' = foldl call_freefun w pre"
  from run have run': "obstack_free (h, w) p = Inr (h', w')"
    by (simp add: h'_def w'_def)
  with same have run_fn: "U_obstack_free (h, w) p = Inr (h', w')"
    by simp
  from inv_free [OF inv assms(2) split] have inv': "inv (h', w') (after_free p live) (c # post)"
    by (simp add: h'_def w'_def)
  from inv have chain: "chain w (chunk h) cs"
    by (simp add: inv_pair)
  note dist = chain_distinct [OF chain]
  note held = live_object_held [OF inv assms(2)]
  from held(2) obtain ch where ch: "chunks w c = Some ch" "c < p" "p \<le> limit ch"
    by (auto simp: holds_def outside_def split: option.splits)
  have 1: "object_base h' = p \<and> next_free h' = p \<and> chunk h' = c \<and> chunk_limit h' = limit ch"
    using ch by (simp add: h'_def lim_def)
  have 2: "\<forall>x\<in>set (pre @ post). \<not> holds w p x"
    using held(3) split dist by auto
  have 3: "released w' = released w @ pre \<and> (\<forall>x\<in>set pre. chunks w' x = None)
      \<and> mem w' = mem w"
    by (simp add: w'_def released_foldl_freefun chunks_foldl_freefun mem_foldl_freefun)
  have 4: "\<forall>x\<in>set (c # post). chunks w' x = chunks w x"
    using dist split by (auto simp: w'_def chunks_foldl_freefun)
  from inv' have pl: "placed (c # post) ((p, c) # after_free p live)"
    and so: "sorted_objs c (maybe_empty_object h') ((p, c) # after_free p live)"
    by (simp_all add: inv_pair 1)
  have 5: "\<forall>ob\<in>set (after_free p live).
           snd ob \<in> set (c # post) \<and> (snd ob = c \<longrightarrow> fst ob \<le> p)"
  proof
    fix ob assume ob: "ob \<in> set (after_free p live)"
    from placed_chunks [OF pl, of ob] ob have "snd ob \<in> set (c # post)"
      by simp
    moreover from so ob have "snd ob = c \<longrightarrow> fst ob \<le> p"
      by auto
    ultimately show "snd ob \<in> set (c # post) \<and> (snd ob = c \<longrightarrow> fst ob \<le> p)"
      by simp
  qed
  have 6: "tracked (h', w') (after_free p live)"
    using assms run' by (rule tracked_free)
  from run' run_fn 1 ch chain split 2 3 4 5 6 show ?thesis
    by blast
qed

theorem bulk_free_of_live_object_witness:
  "tracked (h_lo, w_lo) [(0x1010, 0x1000), (0x2010, 0x2000)]
   \<and> (\<exists>h' w'. obstack_free (h_lo, w_lo) 0x2010 = Inr (h', w')
          \<and> object_base h' = 0x2010 \<and> next_free h' = 0x2010 \<and> chunk h' = 0x2000
          \<and> mem w' = mem w_lo \<and> tracked (h', w') [])"
proof -
  have live: "(0x2010, 0x2000) \<in> set [(0x1010, 0x1000), (0x2010, 0x2000 :: addr)]"
    by simp
  from bulk_free_of_live_object [OF tracked_lo live] obtain h' w' where
    "obstack_free (h_lo, w_lo) 0x2010 = Inr (h', w')"
    "object_base h' = 0x2010" "next_free h' = 0x2010" "chunk h' = 0x2000" "mem w' = mem w_lo"
    "tracked (h', w') (after_free 0x2010 [(0x1010, 0x1000), (0x2010, 0x2000)])"
    by blast
  moreover have "after_free 0x2010 [(0x1010, 0x1000), (0x2010, 0x2000 :: addr)] = []"
    by (simp add: after_free_def)
  ultimately show ?thesis
    using tracked_lo by auto
qed

end
